theory Spec2Isabelle
  imports Main "HOL-Library.AList" "HOL-Library.Sublist" "HOL-Library.Multiset"
begin

section \<open>The home server start-up of synapse/app/homeserver.py\<close>

text \<open>
  The development embeds the two pieces of logic of \<^verbatim>\<open>synapse/app/homeserver.py\<close>:
  \<^verbatim>\<open>SynapseHomeServer.build_db_pool\<close>, which brings the sqlite store to the expected schema
  version, and \<^verbatim>\<open>SynapseHomeServer.create_resource_tree\<close>, which assembles the tree of
  twisted resources, together with the order in which \<^verbatim>\<open>setup\<close> calls them.
\<close>

subsection \<open>Errors\<close>

text \<open>
  The exceptions the module can end with: the \<^verbatim>\<open>ValueError\<close> that \<^verbatim>\<open>build_db_pool\<close> raises
  itself (with the stored and the expected version), and the \<^verbatim>\<open>KeyError\<close> of a failed
  lookup \<^verbatim>\<open>resource_mappings[res_id]\<close> (with the key).
\<close>

datatype error = ValueError int int | KeyError string

subsection \<open>The store and \<^verbatim>\<open>build_db_pool\<close>\<close>

definition SCHEMAS :: "string list" where
  "SCHEMAS = [''transactions'', ''pdu'', ''users'', ''profiles'', ''presence'', ''im'',
     ''room_aliases'']"

definition SCHEMA_VERSION :: int where
  "SCHEMA_VERSION = 1"

text \<open>
  What the module does to the sqlite database is a sequence of statements; the store keeps
  them in a journal, in the order of execution. \<^verbatim>\<open>user_version\<close> is the row that
  \<^verbatim>\<open>PRAGMA user_version\<close> followed by \<^verbatim>\<open>fetchone()\<close> gives: \<open>None\<close> when there is no row,
  \<open>Some v\<close> for the row \<^verbatim>\<open>(v,)\<close>. A database that was never stamped reads \<open>Some 0\<close>.
\<close>

datatype db_op = Executescript string | Commit | Set_user_version int

record store =
  user_version :: "int option"
  journal :: "db_op list"

text \<open>The arguments of \<^verbatim>\<open>adbapi.ConnectionPool\<close>.\<close>

record pool =
  dbapiName :: string
  pool_db_name :: string
  check_same_thread :: bool
  cp_min :: nat
  cp_max :: nat

text \<open>
  The loop \<^verbatim>\<open>for sql_loc in SCHEMAS\<close>: each script is read with \<^verbatim>\<open>read_schema\<close> (of
  \<^verbatim>\<open>synapse.storage\<close>, a parameter here), executed, and committed.
\<close>

fun apply_schemas :: "(string \<Rightarrow> string) \<Rightarrow> string list \<Rightarrow> store \<Rightarrow> store" where
  "apply_schemas read_schema [] s = s"
| "apply_schemas read_schema (sql_loc # locs) s =
     apply_schemas read_schema locs
       (s\<lparr>journal := journal s @ [Executescript (read_schema sql_loc), Commit]\<rparr>)"

text \<open>
  The body of the \<^verbatim>\<open>with sqlite3.connect(...)\<close> block. \<^verbatim>\<open>if row and row[0]\<close> holds for a row
  whose version is not zero. The result is the error raised, or the store after the block.
\<close>

definition prepare_database :: "(string \<Rightarrow> string) \<Rightarrow> store \<Rightarrow> error + store" where
  "prepare_database read_schema s =
     (case user_version s of
        Some user_version' \<Rightarrow>
          if user_version' \<noteq> 0 then
            (if user_version' < SCHEMA_VERSION
             then Inl (ValueError user_version' SCHEMA_VERSION)
             else Inr s)
          else
            (let s' = apply_schemas read_schema SCHEMAS s
             in Inr (s'\<lparr>user_version := Some SCHEMA_VERSION,
                        journal := journal s' @ [Set_user_version SCHEMA_VERSION]\<rparr>))
      | None \<Rightarrow>
          (let s' = apply_schemas read_schema SCHEMAS s
           in Inr (s'\<lparr>user_version := Some SCHEMA_VERSION,
                      journal := journal s' @ [Set_user_version SCHEMA_VERSION]\<rparr>)))"

text \<open>
  \<^verbatim>\<open>build_db_pool\<close> returns the store as the call leaves it, and the pool or the error. On the
  error nothing has been executed, so the store is the one the call was given.
\<close>

definition build_db_pool :: "(string \<Rightarrow> string) \<Rightarrow> string \<Rightarrow> store \<Rightarrow> store \<times> (error + pool)" where
  "build_db_pool read_schema db_name s =
     (case prepare_database read_schema s of
        Inl e \<Rightarrow> (s, Inl e)
      | Inr s' \<Rightarrow>
          (s', Inr \<lparr>dbapiName = ''sqlite3'', pool_db_name = db_name,
                    check_same_thread = False, cp_min = 1, cp_max = 1\<rparr>))"

text \<open>
  A store is stale when its slot holds a version that is not zero and is below
  \<^verbatim>\<open>SCHEMA_VERSION\<close>: the case in which \<^verbatim>\<open>build_db_pool\<close> raises.
\<close>

definition stale :: "store \<Rightarrow> bool" where
  "stale s = (case user_version s of None \<Rightarrow> False | Some v \<Rightarrow> v \<noteq> 0 \<and> v < SCHEMA_VERSION)"

text \<open>
  Modelled from the spec: \<^verbatim>\<open>adbapi.ConnectionPool\<close> is a class of twisted, which is not among
  the sources. The spec has the handle cap the live connections: a caller that needs the
  store while it is busy queues, first in first out, rather than open a second connection.
  A request opens a connection while fewer than \<^verbatim>\<open>cp_max\<close> are open, and waits otherwise; when
  an operation finishes, its connection passes to the first caller that waits, and is closed
  when none does.
\<close>

datatype pool_op = Request nat | Finish

record pool_use =
  open_connections :: nat
  waiting :: "nat list"

fun pool_step :: "pool \<Rightarrow> pool_use \<Rightarrow> pool_op \<Rightarrow> pool_use" where
  "pool_step p u (Request caller) =
     (if open_connections u < cp_max p
      then u\<lparr>open_connections := open_connections u + 1\<rparr>
      else u\<lparr>waiting := waiting u @ [caller]\<rparr>)"
| "pool_step p u Finish =
     (case waiting u of
        [] \<Rightarrow> u\<lparr>open_connections := open_connections u - 1\<rparr>
      | caller # callers \<Rightarrow> u\<lparr>waiting := callers\<rparr>)"

definition pool_run :: "pool \<Rightarrow> pool_op list \<Rightarrow> pool_use" where
  "pool_run p ops = foldl (pool_step p) \<lparr>open_connections = 0, waiting = []\<rparr> ops"

subsection \<open>Resources\<close>

text \<open>
  A resource is an object with an identity and a dictionary of children. Objects are
  addresses; \<^verbatim>\<open>children\<close> is the dictionary of each object, in insertion order, and
  \<^verbatim>\<open>next_node\<close> is the first address that no object has yet. An address is never given to two
  objects. \<^verbatim>\<open>resource_mappings\<close> is the dictionary that \<^verbatim>\<open>create_resource_tree\<close> keeps beside
  the tree.
\<close>

type_synonym node = nat

record state =
  children :: "node \<Rightarrow> (string \<times> node) list"
  next_node :: node
  resource_mappings :: "string \<rightharpoonup> node"

text \<open>\<^verbatim>\<open>Resource()\<close>: a new object, with no children.\<close>

definition new_Resource :: "state \<Rightarrow> node \<times> state" where
  "new_Resource s =
     (next_node s,
      s\<lparr>children := (children s)(next_node s := []), next_node := Suc (next_node s)\<rparr>)"

text \<open>\<^verbatim>\<open>resource.putChild(path, child)\<close> is \<^verbatim>\<open>self.children[path] = child\<close>.\<close>

definition putChild :: "node \<Rightarrow> string \<Rightarrow> node \<Rightarrow> state \<Rightarrow> state" where
  "putChild resource path child s =
     s\<lparr>children := (children s)(resource := AList.update path child (children s resource))\<rparr>"

text \<open>
  \<^verbatim>\<open>resource.listNames()\<close>: the keys of the children, as \<^verbatim>\<open>twisted.web.resource.Resource\<close>
  lists them. A resource whose class lists other names (\<^verbatim>\<open>static.File\<close> lists the files of
  its directory) is not covered by this definition.
\<close>

definition listNames :: "state \<Rightarrow> node \<Rightarrow> string list" where
  "listNames s resource = map fst (children s resource)"

text \<open>
  \<^verbatim>\<open>_resource_id\<close> is \<^verbatim>\<open>"%s-%s" % (resource, path_seg)\<close>. How an object prints (\<^verbatim>\<open>%s\<close>) is
  python's and twisted's business, so it is the parameter \<open>str\<close>.
\<close>

definition resource_id :: "(node \<Rightarrow> string) \<Rightarrow> node \<Rightarrow> string \<Rightarrow> string" where
  "resource_id str resource path_seg = str resource @ ''-'' @ path_seg"

text \<open>
  \<^verbatim>\<open>full_path.split('/')\<close>: the pieces between the separators, one more than there are
  separators, so never the empty list (the case of the empty list below is never taken).
\<close>

fun str_split :: "char \<Rightarrow> string \<Rightarrow> string list" where
  "str_split sep [] = [[]]"
| "str_split sep (c # cs) =
     (if c = sep then [] # str_split sep cs
      else (case str_split sep cs of
              [] \<Rightarrow> [[c]]
            | piece # pieces \<Rightarrow> (c # piece) # pieces))"

text \<open>\<^verbatim>\<open>full_path.split('/')[1:-1]\<close> and \<^verbatim>\<open>full_path.split('/')[-1]\<close>.\<close>

definition interior_segs :: "string \<Rightarrow> string list" where
  "interior_segs full_path = butlast (tl (str_split CHR ''/'' full_path))"

definition last_path_seg :: "string \<Rightarrow> string" where
  "last_path_seg full_path = last (str_split CHR ''/'' full_path)"

subsection \<open>\<^verbatim>\<open>create_resource_tree\<close>\<close>

text \<open>
  The inner loop \<^verbatim>\<open>for path_seg in full_path.split('/')[1:-1]\<close>, from \<^verbatim>\<open>last_resource\<close>. The
  result is the resource the walk ends at, or the \<^verbatim>\<open>KeyError\<close> of
  \<^verbatim>\<open>resource_mappings[res_id]\<close>.
\<close>

fun walk :: "(node \<Rightarrow> string) \<Rightarrow> string list \<Rightarrow> node \<Rightarrow> state \<Rightarrow> error + node \<times> state" where
  "walk str [] last_resource s = Inr (last_resource, s)"
| "walk str (path_seg # segs) last_resource s =
     (if path_seg \<notin> set (listNames s last_resource) then
        (let (child_resource, s1) = new_Resource s;
             s2 = putChild last_resource path_seg child_resource s1;
             res_id = resource_id str last_resource path_seg;
             s3 = s2\<lparr>resource_mappings := (resource_mappings s2)(res_id \<mapsto> child_resource)\<rparr>
         in walk str segs child_resource s3)
      else
        (let res_id = resource_id str last_resource path_seg
         in case resource_mappings s res_id of
              None \<Rightarrow> Inl (KeyError res_id)
            | Some r \<Rightarrow> walk str segs r s))"

text \<open>
  The loop \<^verbatim>\<open>for child_name in existing_dummy_resource.listNames()\<close>, over the names as
  they were listed before the loop.
\<close>

fun steal_children :: "(node \<Rightarrow> string) \<Rightarrow> node \<Rightarrow> node \<Rightarrow> string list \<Rightarrow> state \<Rightarrow> error + state" where
  "steal_children str existing_dummy_resource resource [] s = Inr s"
| "steal_children str existing_dummy_resource resource (child_name # names) s =
     (let child_res_id = resource_id str existing_dummy_resource child_name
      in case resource_mappings s child_res_id of
           None \<Rightarrow> Inl (KeyError child_res_id)
         | Some child_resource \<Rightarrow>
             steal_children str existing_dummy_resource resource names
               (putChild resource child_name child_resource s))"

text \<open>One round of the outer loop \<^verbatim>\<open>for (full_path, resource) in desired_tree\<close>.\<close>

definition attach :: "(node \<Rightarrow> string) \<Rightarrow> node \<Rightarrow> string \<times> node \<Rightarrow> state \<Rightarrow> error + state" where
  "attach str root_resource m s =
     (case m of (full_path, resource) \<Rightarrow>
        (case walk str (interior_segs full_path) root_resource s of
           Inl e \<Rightarrow> Inl e
         | Inr (last_resource, s1) \<Rightarrow>
             (let res_id = resource_id str last_resource (last_path_seg full_path)
              in case (case resource_mappings s1 res_id of
                         None \<Rightarrow> Inr s1
                       | Some existing_dummy_resource \<Rightarrow>
                           steal_children str existing_dummy_resource resource
                             (listNames s1 existing_dummy_resource) s1) of
                   Inl e \<Rightarrow> Inl e
                 | Inr s2 \<Rightarrow>
                     (let s3 = putChild last_resource (last_path_seg full_path) resource s2
                      in Inr (s3\<lparr>resource_mappings :=
                                  (resource_mappings s3)(res_id \<mapsto> resource)\<rparr>)))))"

fun attach_all :: "(node \<Rightarrow> string) \<Rightarrow> node \<Rightarrow> (string \<times> node) list \<Rightarrow> state \<Rightarrow> error + state" where
  "attach_all str root_resource [] s = Inr s"
| "attach_all str root_resource (m # desired_tree) s =
     (case attach str root_resource m s of
        Inl e \<Rightarrow> Inl e
      | Inr s' \<Rightarrow> attach_all str root_resource desired_tree s')"

text \<open>
  Lines 143 to 192 for a given \<^verbatim>\<open>desired_tree\<close>: the root is a new object
  (\<^verbatim>\<open>RootRedirect(...)\<close> or \<^verbatim>\<open>Resource()\<close>, which differ in how they render, not in their
  children), \<^verbatim>\<open>resource_mappings\<close> starts empty, and the mounts are attached in order. The
  result is the root and the state, or the \<^verbatim>\<open>KeyError\<close>.
\<close>

definition build_tree :: "(node \<Rightarrow> string) \<Rightarrow> (string \<times> node) list \<Rightarrow> state \<Rightarrow> error + node \<times> state" where
  "build_tree str desired_tree s =
     (let (root_resource, s1) = new_Resource s
      in case attach_all str root_resource desired_tree (s1\<lparr>resource_mappings := Map.empty\<rparr>) of
           Inl e \<Rightarrow> Inl e
         | Inr s' \<Rightarrow> Inr (root_resource, s'))"

text \<open>
  The prefixes of \<^verbatim>\<open>synapse.api.urls\<close> and the four resources of the home server are
  parameters of \<^verbatim>\<open>create_resource_tree\<close>.
\<close>

record urls =
  CLIENT_PREFIX :: string
  FEDERATION_PREFIX :: string
  WEB_CLIENT_PREFIX :: string
  CONTENT_REPO_PREFIX :: string

record resources =
  resource_for_client :: node
  resource_for_federation :: node
  resource_for_content_repo :: node
  resource_for_web_client :: node

definition create_resource_tree ::
  "(node \<Rightarrow> string) \<Rightarrow> urls \<Rightarrow> resources \<Rightarrow> bool \<Rightarrow> bool \<Rightarrow> state \<Rightarrow> error + node \<times> state" where
  "create_resource_tree str u hs web_client redirect_root_to_web_client s =
     build_tree str
       ([(CLIENT_PREFIX u, resource_for_client hs),
         (FEDERATION_PREFIX u, resource_for_federation hs),
         (CONTENT_REPO_PREFIX u, resource_for_content_repo hs)] @
        (if web_client then [(WEB_CLIENT_PREFIX u, resource_for_web_client hs)] else []))
       s"

subsection \<open>Reading a tree\<close>

text \<open>
  Walking a path from a resource by successive lookup of the segments in the children, and
  the segments of a mount's path as the loop uses them.
\<close>

fun resolve :: "state \<Rightarrow> node \<Rightarrow> string list \<Rightarrow> node option" where
  "resolve s r [] = Some r"
| "resolve s r (seg # segs) =
     (case map_of (children s r) seg of None \<Rightarrow> None | Some c \<Rightarrow> resolve s c segs)"

definition path_segs :: "string \<Rightarrow> string list" where
  "path_segs full_path = interior_segs full_path @ [last_path_seg full_path]"

text \<open>A rendering of objects for the examples: the address in unary, between brackets.\<close>

definition node_str :: "node \<Rightarrow> string" where
  "node_str n = ''<Resource at '' @ replicate n (CHR ''I'') @ ''>''"

text \<open>The initial state of the examples: the objects 0 to \<open>n - 1\<close> exist and have no children.\<close>

definition fresh_state :: "nat \<Rightarrow> state" where
  "fresh_state n = \<lparr>children = (\<lambda>_. []), next_node = n, resource_mappings = Map.empty\<rparr>"

subsection \<open>The start-up sequence \<^verbatim>\<open>setup\<close>\<close>

text \<open>
  What the process does to the outside is a trace of events: the end of the bootstrap (the
  line \<^verbatim>\<open>Database prepared\<close> that \<^verbatim>\<open>build_db_pool\<close> logs after its \<^verbatim>\<open>with\<close> block), a port it
  listens on (\<^verbatim>\<open>reactor.listenSSL\<close> in \<^verbatim>\<open>start_listening\<close>, \<^verbatim>\<open>reactor.listenTCP\<close> for the
  manhole), the start of the daemon, and the event loop \<^verbatim>\<open>reactor.run()\<close>.
\<close>

datatype event = Database_prepared | ListenSSL nat | ListenTCP nat | Daemon_start | Reactor_run


record homeserver =
  db :: store
  db_pool :: "pool option"
  root_resource :: "node option"
  tree :: state
  trace :: "event list"





text \<open>The prefixes as \<^verbatim>\<open>synapse.api.urls\<close> has them, for the examples.\<close>

definition matrix_urls :: urls where
  "matrix_urls = \<lparr>CLIENT_PREFIX = ''/matrix/client/api/v1'',
     FEDERATION_PREFIX = ''/matrix/federation/v1'',
     WEB_CLIENT_PREFIX = ''/matrix/client'',
     CONTENT_REPO_PREFIX = ''/matrix/content''\<rparr>"

definition four_resources :: resources where
  "four_resources = \<lparr>resource_for_client = 0, resource_for_federation = 1,
     resource_for_content_repo = 2, resource_for_web_client = 3\<rparr>"


subsection \<open>Mount lists and the order of the mounts\<close>

text \<open>
  The children of a resource as a map, and the rendering of keys: \<^verbatim>\<open>resource_mappings\<close> is
  keyed by strings, and two pairs of a resource and a segment must not share a key.
\<close>

abbreviation ch :: "state \<Rightarrow> node \<Rightarrow> string \<rightharpoonup> node" where
  "ch s n \<equiv> map_of (children s n)"

definition key_inj :: "(node \<Rightarrow> string) \<Rightarrow> bool" where
  "key_inj str \<longleftrightarrow>
     (\<forall>r r' a b. resource_id str r a = resource_id str r' b \<longrightarrow> r = r' \<and> a = b)"

text \<open>The paths of a mount list, as the segments the loop walks.\<close>

definition mount_paths :: "(string \<times> node) list \<Rightarrow> string list list" where
  "mount_paths ms = map (\<lambda>m. path_segs (fst m)) ms"

text \<open>
  When a mount at the path \<open>q\<close> replaces a resource that has children, the new resource
  takes the children over with \<^verbatim>\<open>putChild\<close>. These are the children \<open>q @ [a]\<close> that lie on the
  path of an earlier mount. A mount list is safe when no mount's path is, or runs through,
  a child that an earlier mount of the list has taken over in this way.
\<close>

definition stolen_children :: "string list list \<Rightarrow> string list \<Rightarrow> string list list" where
  "stolen_children dl q = map (take (Suc (length q))) (filter (strict_prefix q) dl)"

fun steal_safe_from :: "string list list \<Rightarrow> string list list \<Rightarrow> string list list \<Rightarrow> bool" where
  "steal_safe_from Ul dl [] = True"
| "steal_safe_from Ul dl (q # todo) =
     (list_all (\<lambda>u. \<not> prefix u q) Ul \<and>
      steal_safe_from (Ul @ stolen_children dl q) (dl @ [q]) todo)"

definition steal_safe :: "string list list \<Rightarrow> bool" where
  "steal_safe ps = steal_safe_from [] [] ps"

subsection \<open>The invariant of the loop\<close>

text \<open>
  \<open>graft\<close> is the pair of statements that ends the creation of a placeholder and the
  attachment of a mount: \<^verbatim>\<open>putChild\<close>, then the entry in \<^verbatim>\<open>resource_mappings\<close>.
\<close>

definition graft :: "(node \<Rightarrow> string) \<Rightarrow> node \<Rightarrow> string \<Rightarrow> node \<Rightarrow> state \<Rightarrow> state" where
  "graft str cur seg x s =
     (putChild cur seg x s)\<lparr>resource_mappings :=
        (resource_mappings (putChild cur seg x s))(resource_id str cur seg \<mapsto> x)\<rparr>"

text \<open>
  The invariant, for the root \<open>R\<close>, the set \<open>P\<close> of the paths that resolve, the set \<open>U\<close> of the
  paths of children that were taken over, and the set \<open>H\<close> of the resources still to be
  mounted: the paths that resolve are those of \<open>P\<close>; no resource is reached by two paths;
  the resources that are reached exist and are not in \<open>H\<close>; the resources of \<open>H\<close> exist, have
  no children and no key; no key is made of an object that does not exist yet; an entry of
  \<^verbatim>\<open>resource_mappings\<close> for a resource that is reached is a child of it; and a child without
  an entry is in \<open>U\<close>.
\<close>

definition tinv ::
  "(node \<Rightarrow> string) \<Rightarrow> state \<Rightarrow> node \<Rightarrow> string list set \<Rightarrow> string list set \<Rightarrow> node set \<Rightarrow> bool" where
  "tinv str s R P U H \<longleftrightarrow>
     (\<forall>p. resolve s R p \<noteq> None \<longleftrightarrow> p \<in> P) \<and>
     (\<forall>p q n. resolve s R p = Some n \<longrightarrow> resolve s R q = Some n \<longrightarrow> p = q) \<and>
     (\<forall>p n. resolve s R p = Some n \<longrightarrow> n < next_node s \<and> n \<notin> H) \<and>
     (\<forall>h\<in>H. children s h = [] \<and> h < next_node s \<and>
        (\<forall>a. resource_mappings s (resource_id str h a) = None)) \<and>
     (\<forall>n a. next_node s \<le> n \<longrightarrow> resource_mappings s (resource_id str n a) = None) \<and>
     (\<forall>p n a c. resolve s R p = Some n \<longrightarrow>
        resource_mappings s (resource_id str n a) = Some c \<longrightarrow> ch s n a = Some c) \<and>
     (\<forall>p n a. resolve s R p = Some n \<longrightarrow> ch s n a \<noteq> None \<longrightarrow>
        resource_mappings s (resource_id str n a) = None \<longrightarrow> p @ [a] \<in> U)"

text \<open>The paths of a tree with mounts at the paths \<open>D\<close>: the root and the prefixes.\<close>

definition tree_paths :: "string list set \<Rightarrow> string list set" where
  "tree_paths D = insert [] {p. \<exists>q\<in>D. prefix p q}"

subsection \<open>Facts about the bootstrap\<close>

lemma apply_schemas_journal:
  "journal (apply_schemas rs locs s) =
     journal s @ concat (map (\<lambda>l. [Executescript (rs l), Commit]) locs)"
  by (induction locs arbitrary: s) simp_all

lemma apply_schemas_user_version:
  "user_version (apply_schemas rs locs s) = user_version s"
  by (induction locs arbitrary: s) simp_all

lemma apply_schemas_eq:
  "apply_schemas rs locs s =
     s\<lparr>journal := journal s @ concat (map (\<lambda>l. [Executescript (rs l), Commit]) locs)\<rparr>"
  by (induction locs arbitrary: s) simp_all

lemma prepare_database_fresh:
  "user_version s = None \<or> user_version s = Some 0 \<Longrightarrow>
   prepare_database rs s =
     Inr (s\<lparr>user_version := Some SCHEMA_VERSION,
            journal := journal s @ concat (map (\<lambda>l. [Executescript (rs l), Commit]) SCHEMAS)
              @ [Set_user_version SCHEMA_VERSION]\<rparr>)"
  by (auto simp: prepare_database_def Let_def apply_schemas_eq)

lemma prepare_database_stamped:
  "user_version s = Some v \<Longrightarrow> v \<noteq> 0 \<Longrightarrow>
   prepare_database rs s =
     (if v < SCHEMA_VERSION then Inl (ValueError v SCHEMA_VERSION) else Inr s)"
  by (simp add: prepare_database_def)

lemma distinct_SCHEMAS: "distinct SCHEMAS"
  by (simp add: SCHEMAS_def)

text \<open>
  The two outcomes of \<^verbatim>\<open>build_db_pool\<close>: on a stale store the \<^verbatim>\<open>ValueError\<close> and the store
  as it was, on every other store the pool.
\<close>

lemma build_db_pool_Inr_version:
  assumes "snd (build_db_pool rs n s) = Inr p"
  shows "\<exists>v. user_version (fst (build_db_pool rs n s)) = Some v \<and> SCHEMA_VERSION \<le> v \<and>
           (v = SCHEMA_VERSION \<or> (user_version s = Some v \<and> fst (build_db_pool rs n s) = s))"
proof (cases "user_version s = None \<or> user_version s = Some 0")
  case True
  then show ?thesis
    by (simp add: build_db_pool_def prepare_database_fresh)
next
  case False
  then obtain v where v: "user_version s = Some v" "v \<noteq> 0"
    by auto
  with assms have "\<not> v < SCHEMA_VERSION"
    by (auto simp: build_db_pool_def prepare_database_stamped split: if_splits)
  with v show ?thesis
    by (simp add: build_db_pool_def prepare_database_stamped)
qed

lemma build_db_pool_stale:
  "stale s \<Longrightarrow>
   build_db_pool rs n s = (s, Inl (ValueError (the (user_version s)) SCHEMA_VERSION))"
  by (auto simp: stale_def build_db_pool_def prepare_database_stamped split: option.splits)

lemma build_db_pool_not_stale:
  "\<not> stale s \<Longrightarrow>
   snd (build_db_pool rs n s) =
     Inr \<lparr>dbapiName = ''sqlite3'', pool_db_name = n, check_same_thread = False,
          cp_min = 1, cp_max = 1\<rparr>"
proof (cases "user_version s = None \<or> user_version s = Some 0")
  case True
  then show ?thesis by (simp add: build_db_pool_def prepare_database_fresh)
next
  case False
  assume "\<not> stale s"
  with False show ?thesis
    by (auto simp: stale_def build_db_pool_def prepare_database_stamped split: option.splits)
qed

lemma build_db_pool_isl: "isl (snd (build_db_pool rs n s)) \<longleftrightarrow> stale s"
  using build_db_pool_stale [of s rs n] build_db_pool_not_stale [of s rs n]
  by (cases "stale s") auto

text \<open>
  C5. When the store has no stamped version (its slot reads 0, as that of a database that
  was never stamped does, or gives no row), \<^verbatim>\<open>build_db_pool\<close> executes the scripts of
  \<^verbatim>\<open>SCHEMAS\<close>, each once and in the declared order (each followed by its commit), and then
  stamps \<^verbatim>\<open>SCHEMA_VERSION\<close>: the journal grows by exactly these statements, the scripts are
  pairwise different, and a pool is returned. When the store is stamped with
  \<^verbatim>\<open>SCHEMA_VERSION\<close>, the call returns a pool and leaves the store, and so its journal,
  as it was: no script is executed.
\<close>

theorem build_db_pool_fresh_and_current:
  "((user_version s = None \<or> user_version s = Some 0) \<longrightarrow>
      fst (build_db_pool rs n s) =
        s\<lparr>user_version := Some SCHEMA_VERSION,
          journal := journal s @ concat (map (\<lambda>l. [Executescript (rs l), Commit]) SCHEMAS)
            @ [Set_user_version SCHEMA_VERSION]\<rparr>
      \<and> \<not> isl (snd (build_db_pool rs n s)))
   \<and> (user_version s = Some SCHEMA_VERSION \<longrightarrow>
      fst (build_db_pool rs n s) = s \<and> \<not> isl (snd (build_db_pool rs n s)))
   \<and> distinct SCHEMAS"
  by (auto simp: build_db_pool_def prepare_database_fresh prepare_database_stamped
        distinct_SCHEMAS SCHEMA_VERSION_def)

theorem build_db_pool_fresh_and_current_witness:
  "journal (fst (build_db_pool id ''homeserver.db'' \<lparr>user_version = Some 0, journal = []\<rparr>)) =
     [Executescript ''transactions'', Commit, Executescript ''pdu'', Commit,
      Executescript ''users'', Commit, Executescript ''profiles'', Commit,
      Executescript ''presence'', Commit, Executescript ''im'', Commit,
      Executescript ''room_aliases'', Commit, Set_user_version 1]
   \<and> user_version (fst (build_db_pool id ''homeserver.db'' \<lparr>user_version = Some 0, journal = []\<rparr>))
       = Some 1
   \<and> \<not> isl (snd (build_db_pool id ''homeserver.db'' \<lparr>user_version = Some 0, journal = []\<rparr>))
   \<and> fst (build_db_pool id ''homeserver.db'' \<lparr>user_version = Some 1, journal = []\<rparr>)
       = \<lparr>user_version = Some 1, journal = []\<rparr>
   \<and> \<not> isl (snd (build_db_pool id ''homeserver.db'' \<lparr>user_version = Some 1, journal = []\<rparr>))"
  using build_db_pool_fresh_and_current [of "\<lparr>user_version = Some 0, journal = []\<rparr>" id "''homeserver.db''"]
    build_db_pool_fresh_and_current [of "\<lparr>user_version = Some 1, journal = []\<rparr>" id "''homeserver.db''"]
  by (simp add: SCHEMAS_def SCHEMA_VERSION_def)

text \<open>
  C2, as the code has it. \<^verbatim>\<open>build_db_pool\<close> aborts exactly on the stale stores, those whose
  slot holds a version that is not zero and is below \<^verbatim>\<open>SCHEMA_VERSION\<close>. On every other
  store it returns a pool and leaves a stamped version that is at least \<^verbatim>\<open>SCHEMA_VERSION\<close>:
  it is \<^verbatim>\<open>SCHEMA_VERSION\<close>, or it is the version the store had before the call, and then the
  store is unchanged. A store stamped with a later version is accepted as it is.
\<close>

theorem build_db_pool_version_at_least:
  "(isl (snd (build_db_pool rs n s)) \<longleftrightarrow> stale s) \<and>
   (\<not> stale s \<longrightarrow>
      (\<exists>v. user_version (fst (build_db_pool rs n s)) = Some v \<and> SCHEMA_VERSION \<le> v \<and>
           (v = SCHEMA_VERSION \<or> (user_version s = Some v \<and> fst (build_db_pool rs n s) = s))))"
proof (intro conjI impI)
  show "isl (snd (build_db_pool rs n s)) \<longleftrightarrow> stale s"
    by (rule build_db_pool_isl)
  assume "\<not> stale s"
  then have "snd (build_db_pool rs n s) =
     Inr \<lparr>dbapiName = ''sqlite3'', pool_db_name = n, check_same_thread = False,
          cp_min = 1, cp_max = 1\<rparr>"
    by (rule build_db_pool_not_stale)
  then show "\<exists>v. user_version (fst (build_db_pool rs n s)) = Some v \<and> SCHEMA_VERSION \<le> v \<and>
           (v = SCHEMA_VERSION \<or> (user_version s = Some v \<and> fst (build_db_pool rs n s) = s))"
    by (rule build_db_pool_Inr_version)
qed

theorem build_db_pool_version_at_least_witness:
  "\<not> isl (snd (build_db_pool id ''homeserver.db'' \<lparr>user_version = Some 2, journal = []\<rparr>))
   \<and> user_version (fst (build_db_pool id ''homeserver.db'' \<lparr>user_version = Some 2, journal = []\<rparr>))
     = Some 2
   \<and> isl (snd (build_db_pool id ''homeserver.db'' \<lparr>user_version = Some (- 1), journal = []\<rparr>))"
proof -
  have a: "\<not> stale \<lparr>user_version = Some 2, journal = []\<rparr>"
    and b: "stale \<lparr>user_version = Some (- 1), journal = []\<rparr>"
    by (simp_all add: stale_def SCHEMA_VERSION_def)
  from build_db_pool_version_at_least [of id "''homeserver.db''" "\<lparr>user_version = Some 2, journal = []\<rparr>"]
    build_db_pool_version_at_least [of id "''homeserver.db''" "\<lparr>user_version = Some (- 1), journal = []\<rparr>"]
    a b
  show ?thesis
    by (auto simp: build_db_pool_def prepare_database_def SCHEMA_VERSION_def)
qed

text \<open>
  C2, as the claim states it, fails on a store stamped with a version above
  \<^verbatim>\<open>SCHEMA_VERSION\<close>: the call returns a pool and the stamped version is still 2.
\<close>

theorem build_db_pool_later_version_counterexample:
  "snd (build_db_pool id ''homeserver.db'' \<lparr>user_version = Some 2, journal = []\<rparr>) =
      Inr \<lparr>dbapiName = ''sqlite3'', pool_db_name = ''homeserver.db'',
           check_same_thread = False, cp_min = 1, cp_max = 1\<rparr>
   \<and> user_version (fst (build_db_pool id ''homeserver.db'' \<lparr>user_version = Some 2, journal = []\<rparr>))
      = Some 2
   \<and> SCHEMA_VERSION \<noteq> 2"
  by (simp add: build_db_pool_def prepare_database_def SCHEMA_VERSION_def)

text \<open>
  C6, as the code has it. When the slot holds a version that is not zero and is below
  \<^verbatim>\<open>SCHEMA_VERSION\<close>, \<^verbatim>\<open>build_db_pool\<close> raises the \<^verbatim>\<open>ValueError\<close>: no pool is returned and
  the store, with its version and its journal, is the one the call was given, so no script
  was executed and no version was written.
\<close>

theorem build_db_pool_stale_aborts:
  "user_version s = Some v \<Longrightarrow> v \<noteq> 0 \<Longrightarrow> v < SCHEMA_VERSION \<Longrightarrow>
   build_db_pool rs n s = (s, Inl (ValueError v SCHEMA_VERSION))"
  by (simp add: build_db_pool_def prepare_database_stamped)

theorem build_db_pool_stale_aborts_witness:
  "build_db_pool id ''homeserver.db'' \<lparr>user_version = Some (- 1), journal = []\<rparr> =
     (\<lparr>user_version = Some (- 1), journal = []\<rparr>, Inl (ValueError (- 1) 1))"
  using build_db_pool_stale_aborts
    [of "\<lparr>user_version = Some (- 1), journal = []\<rparr>" "- 1" id "''homeserver.db''"]
  by (simp add: SCHEMA_VERSION_def)

text \<open>
  C6, as the claim states it, fails on the version 0, which is below \<^verbatim>\<open>SCHEMA_VERSION\<close>: the
  call does not raise, it executes the scripts and stamps the store.
\<close>

theorem build_db_pool_zero_counterexample:
  "(0::int) < SCHEMA_VERSION
   \<and> \<not> isl (snd (build_db_pool id ''homeserver.db'' \<lparr>user_version = Some 0, journal = []\<rparr>))
   \<and> user_version (fst (build_db_pool id ''homeserver.db'' \<lparr>user_version = Some 0, journal = []\<rparr>))
      = Some 1
   \<and> journal (fst (build_db_pool id ''homeserver.db'' \<lparr>user_version = Some 0, journal = []\<rparr>))
      \<noteq> []"
  by (simp add: build_db_pool_def prepare_database_fresh SCHEMA_VERSION_def SCHEMAS_def)

text \<open>
  C8. On every store that is not stale, \<^verbatim>\<open>build_db_pool\<close> returns a pool, constructed with
  \<^verbatim>\<open>cp_min=1\<close> and \<^verbatim>\<open>cp_max=1\<close>: its bound on the connections is one, and whatever the
  callers request of this pool and in whatever order, at no time is more than one connection
  open.
\<close>

lemma pool_step_bound:
  "open_connections u \<le> cp_max p \<Longrightarrow> open_connections (pool_step p u x) \<le> cp_max p"
  by (cases x) (auto split: list.splits)

lemma pool_foldl_bound:
  "open_connections u \<le> cp_max p \<Longrightarrow> open_connections (foldl (pool_step p) u ops) \<le> cp_max p"
  by (induction ops arbitrary: u) (simp_all add: pool_step_bound)

lemma pool_run_bound: "open_connections (pool_run p ops) \<le> cp_max p"
  unfolding pool_run_def by (rule pool_foldl_bound) simp

theorem build_db_pool_one_connection:
  "\<not> stale s \<Longrightarrow>
   \<exists>p. snd (build_db_pool rs n s) = Inr p \<and> cp_min p = 1 \<and> cp_max p = 1 \<and>
       (\<forall>ops. open_connections (pool_run p ops) \<le> 1)"
proof -
  assume "\<not> stale s"
  then have r: "snd (build_db_pool rs n s) =
     Inr \<lparr>dbapiName = ''sqlite3'', pool_db_name = n, check_same_thread = False,
          cp_min = 1, cp_max = 1\<rparr>" (is "_ = Inr ?p")
    by (rule build_db_pool_not_stale)
  have "\<forall>ops. open_connections (pool_run ?p ops) \<le> 1"
    using pool_run_bound [of ?p] by simp
  with r show ?thesis by simp
qed

theorem build_db_pool_one_connection_witness:
  "\<exists>p. snd (build_db_pool id ''homeserver.db'' \<lparr>user_version = Some 0, journal = []\<rparr>) = Inr p
     \<and> cp_max p = 1
     \<and> open_connections (pool_run p [Request 1, Request 2, Request 3]) \<le> 1
     \<and> waiting (pool_run p [Request 1, Request 2, Request 3]) = [2, 3]"
proof -
  have "\<not> stale \<lparr>user_version = Some 0, journal = []\<rparr>"
    by (simp add: stale_def)
  from build_db_pool_one_connection [OF this, of id "''homeserver.db''"]
  obtain p where p: "snd (build_db_pool id ''homeserver.db'' \<lparr>user_version = Some 0, journal = []\<rparr>) = Inr p"
    "cp_max p = 1" "\<forall>ops. open_connections (pool_run p ops) \<le> 1"
    by blast
  have "waiting (pool_run p [Request 1, Request 2, Request 3]) = [2, 3]"
    using p(2) by (simp add: pool_run_def)
  with p show ?thesis by blast
qed

text \<open>
  C9. A store whose slot reads 0 is treated as a store with no row at all: the two calls
  give the same store and the same result, all the scripts of \<^verbatim>\<open>SCHEMAS\<close> are executed and
  \<^verbatim>\<open>SCHEMA_VERSION\<close> is stamped.
\<close>

theorem build_db_pool_zero_is_unstamped:
  "build_db_pool rs n (s\<lparr>user_version := Some 0\<rparr>) = build_db_pool rs n (s\<lparr>user_version := None\<rparr>)
   \<and> fst (build_db_pool rs n (s\<lparr>user_version := Some 0\<rparr>)) =
       s\<lparr>user_version := Some SCHEMA_VERSION,
         journal := journal s @ concat (map (\<lambda>l. [Executescript (rs l), Commit]) SCHEMAS)
           @ [Set_user_version SCHEMA_VERSION]\<rparr>
   \<and> \<not> isl (snd (build_db_pool rs n (s\<lparr>user_version := Some 0\<rparr>)))"
  by (simp add: build_db_pool_def prepare_database_fresh)

subsection \<open>Facts about the start-up sequence\<close>

lemma walk_error: "walk str segs r s = Inl e \<Longrightarrow> \<exists>k. e = KeyError k"
proof (induction segs arbitrary: r s)
  case Nil
  then show ?case by simp
next
  case (Cons seg segs)
  then show ?case
    by (auto simp: Let_def split: if_splits option.splits prod.splits)
qed

lemma steal_children_error:
  "steal_children str ex res names s = Inl e \<Longrightarrow> \<exists>k. e = KeyError k"
  by (induction names arbitrary: s) (auto simp: Let_def split: option.splits)

lemma attach_error: "attach str root m s = Inl e \<Longrightarrow> \<exists>k. e = KeyError k"
  by (auto simp: attach_def Let_def split: prod.splits sum.splits option.splits
        dest: walk_error steal_children_error)

lemma attach_all_error: "attach_all str root ms s = Inl e \<Longrightarrow> \<exists>k. e = KeyError k"
  by (induction ms arbitrary: s) (auto split: sum.splits dest: attach_error)

lemma build_tree_error: "build_tree str ms s = Inl e \<Longrightarrow> \<exists>k. e = KeyError k"
  by (auto simp: build_tree_def Let_def split: prod.splits sum.splits dest: attach_all_error)

lemma create_resource_tree_error:
  "create_resource_tree str u res w r s = Inl e \<Longrightarrow> \<exists>k. e = KeyError k"
  unfolding create_resource_tree_def by (rule build_tree_error)








subsection \<open>Runs of \<^verbatim>\<open>create_resource_tree\<close> that go wrong\<close>

text \<open>
  The rendering of the examples gives different keys to different pairs of a resource and
  a segment, whatever the segment is.
\<close>

lemma replicate_bracket_eq:
  "replicate m (CHR ''I'') @ CHR ''>'' # xs = replicate n (CHR ''I'') @ CHR ''>'' # ys
     \<Longrightarrow> m = n \<and> xs = ys"
proof (induction m arbitrary: n)
  case 0
  then show ?case by (cases n) auto
next
  case (Suc m)
  then show ?case by (cases n) auto
qed

lemma node_str_key_inj:
  "resource_id node_str r seg = resource_id node_str r' seg' \<longleftrightarrow> r = r' \<and> seg = seg'"
  by (auto simp: resource_id_def node_str_def dest: replicate_bracket_eq)

text \<open>
  C1 fails on the mounts \<^verbatim>\<open>/a/b/c\<close>, \<^verbatim>\<open>/a\<close>, \<^verbatim>\<open>/a/b\<close>, in this order, of three different
  resources without children. The second mount takes over the child \<^verbatim>\<open>b\<close> of the
  placeholder at \<^verbatim>\<open>/a\<close> with \<^verbatim>\<open>putChild\<close>, and records nothing in \<^verbatim>\<open>resource_mappings\<close> for
  it. The third mount therefore finds no entry for \<^verbatim>\<open>b\<close> under the resource at \<^verbatim>\<open>/a\<close>, steals
  nothing and replaces the placeholder at \<^verbatim>\<open>/a/b\<close> together with its child \<^verbatim>\<open>c\<close>. The call
  completes, and \<^verbatim>\<open>/a/b/c\<close> resolves to nothing.
\<close>

theorem build_tree_loses_deeper_mount:
  "(case build_tree node_str [(''/a/b/c'', 0), (''/a'', 1), (''/a/b'', 2)] (fresh_state 3) of
      Inl e \<Rightarrow> None
    | Inr (r, s) \<Rightarrow> Some (map (\<lambda>p. resolve s r (path_segs p)) [''/a/b/c'', ''/a'', ''/a/b'']))
   = Some [None, Some 1, Some 2]"
  by code_simp

text \<open>
  C7 fails on the mounts \<^verbatim>\<open>/a/b\<close>, \<^verbatim>\<open>/a\<close>, \<^verbatim>\<open>/a\<close>: the first resource at \<^verbatim>\<open>/a\<close> has taken over
  the child \<^verbatim>\<open>b\<close> without an entry in \<^verbatim>\<open>resource_mappings\<close>, so the loop that steals its
  children for the second resource at \<^verbatim>\<open>/a\<close> raises the \<^verbatim>\<open>KeyError\<close>.
\<close>

theorem build_tree_same_path_key_error:
  "(case build_tree node_str [(''/a/b'', 0), (''/a'', 1), (''/a'', 2)] (fresh_state 3) of
      Inl e \<Rightarrow> Some e | Inr x \<Rightarrow> None)
   = Some (KeyError ''<Resource at I>-b'')"
  by code_simp

text \<open>
  C10 fails on the mounts \<^verbatim>\<open>/a/b/c\<close>, \<^verbatim>\<open>/a\<close>, \<^verbatim>\<open>/a/b/d\<close> of three different resources
  without children: the walk of the third mount reaches the resource at \<^verbatim>\<open>/a\<close>, finds \<^verbatim>\<open>b\<close>
  among its names and no entry for it in \<^verbatim>\<open>resource_mappings\<close>.
\<close>

theorem build_tree_walk_key_error:
  "(case build_tree node_str [(''/a/b/c'', 0), (''/a'', 1), (''/a/b/d'', 2)] (fresh_state 3) of
      Inl e \<Rightarrow> Some e | Inr x \<Rightarrow> None)
   = Some (KeyError ''<Resource at I>-b'')"
  by code_simp

subsection \<open>Resolving paths\<close>

lemma resolve_append:
  "resolve s r (p @ q) = (case resolve s r p of None \<Rightarrow> None | Some c \<Rightarrow> resolve s c q)"
  by (induction p arbitrary: r) (auto split: option.splits)

lemma resolve_snoc:
  "resolve s r (p @ [a]) = (case resolve s r p of None \<Rightarrow> None | Some c \<Rightarrow> ch s c a)"
  by (simp add: resolve_append split: option.splits)

lemma resolve_prefix_Some:
  "resolve s r (p @ q) = Some n \<Longrightarrow> \<exists>c. resolve s r p = Some c"
  by (auto simp: resolve_append split: option.splits)

text \<open>
  A path resolves as before when the children change only at resources that the path does
  not pass.
\<close>

lemma resolve_frame:
  assumes "\<And>n. n \<notin> X \<Longrightarrow> children s' n = children s n"
    and "\<And>q x. strict_prefix q p \<Longrightarrow> x \<in> X \<Longrightarrow> resolve s r q \<noteq> Some x"
  shows "resolve s' r p = resolve s r p"
  using assms(2)
proof (induction p arbitrary: r)
  case Nil
  then show ?case by simp
next
  case (Cons a p)
  have r: "r \<notin> X"
    using Cons.prems [of "[]" r] by auto
  then have c: "children s' r = children s r"
    by (rule assms(1))
  show ?case
  proof (cases "ch s r a")
    case None
    with c show ?thesis by simp
  next
    case (Some c')
    have "resolve s' c' p = resolve s c' p"
    proof (rule Cons.IH)
      fix q x
      assume "strict_prefix q p" "x \<in> X"
      then have "resolve s r (a # q) \<noteq> Some x"
        using Cons.prems [of "a # q" x] by simp
      with Some show "resolve s c' q \<noteq> Some x" by simp
    qed
    with c Some show ?thesis by simp
  qed
qed

lemma ch_None_iff: "ch s n a = None \<longleftrightarrow> a \<notin> set (listNames s n)"
  by (simp add: listNames_def map_of_eq_None_iff)

lemma child_names_resolve:
  "resolve t r p = Some n \<Longrightarrow>
   set (listNames t n) = {a. resolve t r (p @ [a]) \<noteq> None}"
proof -
  assume "resolve t r p = Some n"
  then have "resolve t r (p @ [a]) \<noteq> None \<longleftrightarrow> a \<in> set (listNames t n)" for a
    using ch_None_iff [of t n a] by (simp add: resolve_snoc)
  then show ?thesis by blast
qed

subsection \<open>Grafting a resource\<close>

lemma graft_simps:
  "children (graft str cur seg x s) n =
     (if n = cur then AList.update seg x (children s cur) else children s n)"
  "next_node (graft str cur seg x s) = next_node s"
  "resource_mappings (graft str cur seg x s) = (resource_mappings s)(resource_id str cur seg \<mapsto> x)"
  by (simp_all add: graft_def putChild_def)

lemma ch_graft:
  "ch (graft str cur seg x s) n a =
     (if n = cur \<and> a = seg then Some x else ch s n a)"
  by (simp add: graft_simps update_conv')

text \<open>
  Grafting \<open>x\<close> under the resource at \<open>pre\<close> with the name \<open>seg\<close>, where \<open>x\<close> is not in the
  tree and has the children of the resource it replaces, if there is one: the path
  \<open>pre @ [seg]\<close> now resolves to \<open>x\<close>, and every other path resolves as before.
\<close>

lemma graft_resolve:
  assumes inj: "\<And>p q n. resolve s R p = Some n \<Longrightarrow> resolve s R q = Some n \<Longrightarrow> p = q"
    and cur: "resolve s R pre = Some cur"
    and unreach: "\<And>p. resolve s R p \<noteq> Some x"
    and xch: "\<And>a. ch s x a = (case ch s cur seg of None \<Rightarrow> None | Some E \<Rightarrow> ch s E a)"
  shows "resolve (graft str cur seg x s) R p =
           (if p = pre @ [seg] then Some x else resolve s R p)"
proof -
  let ?s' = "graft str cur seg x s"
  have other: "\<And>n. n \<notin> {cur} \<Longrightarrow> children ?s' n = children s n"
    by (simp add: graft_simps)
  have xcur: "x \<noteq> cur"
    using cur unreach by auto
  have A: "resolve ?s' R q = resolve s R q" if "\<not> strict_prefix pre q" for q
  proof (rule resolve_frame [OF other])
    fix q' y
    assume "strict_prefix q' q" "y \<in> {cur}"
    show "resolve s R q' \<noteq> Some y"
    proof
      assume "resolve s R q' = Some y"
      with \<open>y \<in> {cur}\<close> cur have "q' = pre" using inj by blast
      with \<open>strict_prefix q' q\<close> that show False by simp
    qed
  qed (assumption)
  have B: "resolve ?s' c t = resolve s c t"
    if "resolve s R q = Some c" "strict_prefix pre q" for q c t
  proof (rule resolve_frame [OF other])
    fix q' y
    assume "strict_prefix q' t" "y \<in> {cur}"
    show "resolve s c q' \<noteq> Some y"
    proof
      assume "resolve s c q' = Some y"
      with that(1) \<open>y \<in> {cur}\<close> have "resolve s R (q @ q') = Some cur"
        by (simp add: resolve_append)
      with cur have "q @ q' = pre" using inj by blast
      with that(2) show False
        by (metis prefix_order.less_le_not_le prefixI)
    qed
  qed (assumption)
  show ?thesis
  proof (cases "strict_prefix pre p")
    case False
    then have "p \<noteq> pre @ [seg]" by (auto simp: strict_prefix_def)
    with A [OF False] show ?thesis by simp
  next
    case True
    then obtain a t where p: "p = pre @ a # t"
      by (metis strict_prefixE' append.assoc append_Cons append_Nil)
    have pre': "resolve ?s' R pre = Some cur"
      using A [of pre] cur by simp
    show ?thesis
    proof (cases "a = seg")
      case False
      note neq = False
      show ?thesis
      proof (cases "ch s cur a")
        case None
        with neq p pre' cur show ?thesis
          by (simp add: resolve_append ch_graft)
      next
        case (Some c)
        then have "resolve s R (pre @ [a]) = Some c"
          using cur by (simp add: resolve_snoc)
        from B [OF this, of t] have "resolve ?s' c t = resolve s c t"
          by (simp add: strict_prefix_def)
        with neq p pre' cur Some show ?thesis
          by (simp add: resolve_append ch_graft)
      qed
    next
      case True
      note aseg = True
      show ?thesis
      proof (cases t)
        case Nil
        with aseg p pre' show ?thesis
          by (simp add: resolve_append ch_graft)
      next
        case (Cons b t')
        have ne: "p \<noteq> pre @ [seg]" using p Cons by simp
        have l: "resolve ?s' R p = (case ch s x b of None \<Rightarrow> None | Some c \<Rightarrow> resolve ?s' c t')"
          using p Cons aseg pre' xcur by (simp add: resolve_append ch_graft)
        have r: "resolve s R p =
            (case ch s cur seg of None \<Rightarrow> None
             | Some E \<Rightarrow> (case ch s E b of None \<Rightarrow> None | Some c \<Rightarrow> resolve s c t'))"
          using p Cons aseg cur by (simp add: resolve_append split: option.splits)
        show ?thesis
        proof (cases "ch s cur seg")
          case None
          with xch [of b] l r ne show ?thesis by simp
        next
          case (Some E)
          note E = Some
          show ?thesis
          proof (cases "ch s E b")
            case None
            with xch [of b] E l r ne show ?thesis by simp
          next
            case (Some c)
            have "resolve s R (pre @ [seg, b]) = Some c"
              using cur E Some by (simp add: resolve_append)
            from B [OF this, of t'] have "resolve ?s' c t' = resolve s c t'"
              by (simp add: strict_prefix_def)
            with xch [of b] E Some l r ne show ?thesis by simp
          qed
        qed
      qed
    qed
  qed
qed

lemma key_inj_eq:
  "key_inj str \<Longrightarrow> resource_id str r a = resource_id str r' b \<longleftrightarrow> r = r' \<and> a = b"
  unfolding key_inj_def by blast

lemma tinvD:
  assumes "tinv str s R P U H"
  shows "resolve s R p \<noteq> None \<longleftrightarrow> p \<in> P"
    and "resolve s R p = Some n \<Longrightarrow> resolve s R q = Some n \<Longrightarrow> p = q"
    and "resolve s R p = Some n \<Longrightarrow> n < next_node s"
    and "resolve s R p = Some n \<Longrightarrow> n \<notin> H"
    and "h \<in> H \<Longrightarrow> children s h = []"
    and "h \<in> H \<Longrightarrow> h < next_node s"
    and "h \<in> H \<Longrightarrow> resource_mappings s (resource_id str h a) = None"
    and "next_node s \<le> m \<Longrightarrow> resource_mappings s (resource_id str m a) = None"
    and "resolve s R p = Some n \<Longrightarrow> resource_mappings s (resource_id str n a) = Some c
           \<Longrightarrow> ch s n a = Some c"
    and "resolve s R p = Some n \<Longrightarrow> ch s n a = Some c
           \<Longrightarrow> resource_mappings s (resource_id str n a) = None \<Longrightarrow> p @ [a] \<in> U"
  using assms unfolding tinv_def by blast+

lemma graft_tinv:
  assumes K: "key_inj str"
    and I: "tinv str s R P U H"
    and cur: "resolve s R pre = Some cur"
    and unreach: "\<And>p. resolve s R p \<noteq> Some x"
    and xlt: "x < next_node s"
    and xrm: "\<And>a. resource_mappings s (resource_id str x a) = None"
    and xH: "x \<notin> H"
    and xch: "\<And>a. ch s x a = (case ch s cur seg of None \<Rightarrow> None | Some E \<Rightarrow> ch s E a)"
  shows "tinv str (graft str cur seg x s) R (insert (pre @ [seg]) P)
           (U \<union> {pre @ [seg, a] | a. ch s x a \<noteq> None}) H"
proof -
  let ?s' = "graft str cur seg x s"
  note D = tinvD [OF I]
  have res: "resolve ?s' R p = (if p = pre @ [seg] then Some x else resolve s R p)" for p
    by (rule graft_resolve [OF D(2) cur unreach xch])
  have xcur: "x \<noteq> cur" using cur unreach by auto
  have curH: "cur \<notin> H" using D(4) [OF cur] .
  have curlt: "cur < next_node s" using D(3) [OF cur] .
  have rm: "resource_mappings ?s' (resource_id str n a) =
      (if n = cur \<and> a = seg then Some x else resource_mappings s (resource_id str n a))" for n a
    by (simp add: graft_simps key_inj_eq [OF K])
  have c1: "\<forall>p. resolve ?s' R p \<noteq> None \<longleftrightarrow> p \<in> insert (pre @ [seg]) P"
    using D(1) by (auto simp: res)
  have c2: "\<forall>p q n. resolve ?s' R p = Some n \<longrightarrow> resolve ?s' R q = Some n \<longrightarrow> p = q"
    using D(2) unreach by (auto simp: res split: if_splits)
  have c3: "\<forall>p n. resolve ?s' R p = Some n \<longrightarrow> n < next_node ?s' \<and> n \<notin> H"
    using D(3) D(4) xlt xH by (auto simp: res graft_simps(1,2) split: if_splits)
  have c4: "\<forall>h\<in>H. children ?s' h = [] \<and> h < next_node ?s' \<and>
        (\<forall>a. resource_mappings ?s' (resource_id str h a) = None)"
    using D(5) D(6) D(7) curH by (auto simp: rm graft_simps(1,2))
  have c5: "\<forall>n a. next_node ?s' \<le> n \<longrightarrow> resource_mappings ?s' (resource_id str n a) = None"
    using D(8) curlt by (auto simp: rm graft_simps(1,2))
  have c6: "\<forall>p n a c. resolve ?s' R p = Some n \<longrightarrow>
        resource_mappings ?s' (resource_id str n a) = Some c \<longrightarrow> ch ?s' n a = Some c"
  proof (intro allI impI)
    fix p n a c
    assume p: "resolve ?s' R p = Some n"
      and m: "resource_mappings ?s' (resource_id str n a) = Some c"
    show "ch ?s' n a = Some c"
    proof (cases "p = pre @ [seg]")
      case True
      with p have "n = x" by (simp add: res)
      with m xcur xrm show ?thesis by (simp add: rm)
    next
      case False
      with p have "resolve s R p = Some n" by (simp add: res)
      from D(9) [OF this] m show ?thesis
        by (auto simp: rm ch_graft split: if_splits)
    qed
  qed
  have c7: "\<forall>p n a. resolve ?s' R p = Some n \<longrightarrow> ch ?s' n a \<noteq> None \<longrightarrow>
        resource_mappings ?s' (resource_id str n a) = None \<longrightarrow>
        p @ [a] \<in> U \<union> {pre @ [seg, a] | a. ch s x a \<noteq> None}"
  proof (intro allI impI)
    fix p n a
    assume p: "resolve ?s' R p = Some n"
      and c: "ch ?s' n a \<noteq> None"
      and m: "resource_mappings ?s' (resource_id str n a) = None"
    show "p @ [a] \<in> U \<union> {pre @ [seg, a] | a. ch s x a \<noteq> None}"
    proof (cases "p = pre @ [seg]")
      case True
      with p have "n = x" by (simp add: res)
      with c xcur have "ch s x a \<noteq> None" by (simp add: ch_graft)
      with True show ?thesis by auto
    next
      case False
      with p have r: "resolve s R p = Some n" by (simp add: res)
      from m have nm: "\<not> (n = cur \<and> a = seg)"
        and m': "resource_mappings s (resource_id str n a) = None"
        by (auto simp: rm split: if_splits)
      from c nm obtain c' where "ch s n a = Some c'"
        by (auto simp: ch_graft split: if_splits)
      from D(10) [OF r this m'] show ?thesis by simp
    qed
  qed
  show ?thesis
    unfolding tinv_def using c1 c2 c3 c4 c5 c6 c7 by blast
qed

lemma tinv_mono: "tinv str s R P U H \<Longrightarrow> H' \<subseteq> H \<Longrightarrow> U \<subseteq> U' \<Longrightarrow> tinv str s R P U' H'"
  unfolding tinv_def by (simp add: subset_iff) blast

lemma tinv_children_upd:
  assumes I: "tinv str s R P U H"
    and unreach: "\<And>p. resolve s R p \<noteq> Some x"
    and xH: "x \<notin> H"
    and nxt: "next_node s \<le> next_node s1"
    and rm: "resource_mappings s1 = resource_mappings s"
    and other: "\<And>n. n \<noteq> x \<Longrightarrow> children s1 n = children s n"
  shows "tinv str s1 R P U H \<and> (\<forall>p. resolve s1 R p = resolve s R p)"
proof -
  note D = tinvD [OF I]
  have res: "resolve s1 R p = resolve s R p" for p
  proof (rule resolve_frame [where X = "{x}"])
    show "\<And>n. n \<notin> {x} \<Longrightarrow> children s1 n = children s n"
      using other by simp
    show "\<And>q y. strict_prefix q p \<Longrightarrow> y \<in> {x} \<Longrightarrow> resolve s R q \<noteq> Some y"
      using unreach by simp
  qed
  have same: "children s1 n = children s n" if "resolve s R p = Some n" for p n
    using that unreach other by (cases "n = x") auto
  have c4: "\<forall>h\<in>H. children s1 h = [] \<and> h < next_node s1 \<and>
        (\<forall>a. resource_mappings s1 (resource_id str h a) = None)"
  proof
    fix h assume h: "h \<in> H"
    then have "h \<noteq> x" using xH by auto
    with D(5) [OF h] D(6) [OF h] D(7) [OF h] other nxt rm
    show "children s1 h = [] \<and> h < next_node s1 \<and>
        (\<forall>a. resource_mappings s1 (resource_id str h a) = None)"
      by auto
  qed
  have c3: "\<forall>p n. resolve s1 R p = Some n \<longrightarrow> n < next_node s1 \<and> n \<notin> H"
    using D(3) D(4) nxt by (fastforce simp: res)
  have c5: "\<forall>n a. next_node s1 \<le> n \<longrightarrow> resource_mappings s1 (resource_id str n a) = None"
    using D(8) nxt rm by auto
  have c6: "\<forall>p n a c. resolve s1 R p = Some n \<longrightarrow>
        resource_mappings s1 (resource_id str n a) = Some c \<longrightarrow> ch s1 n a = Some c"
    using D(9) same rm by (simp add: res)
  have c7: "\<forall>p n a. resolve s1 R p = Some n \<longrightarrow> ch s1 n a \<noteq> None \<longrightarrow>
        resource_mappings s1 (resource_id str n a) = None \<longrightarrow> p @ [a] \<in> U"
  proof (intro allI impI)
    fix p n a
    assume p: "resolve s1 R p = Some n" and c: "ch s1 n a \<noteq> None"
      and m: "resource_mappings s1 (resource_id str n a) = None"
    from p have r: "resolve s R p = Some n" by (simp add: res)
    from c same [OF r] obtain c' where "ch s n a = Some c'" by auto
    from D(10) [OF r this] m rm show "p @ [a] \<in> U" by simp
  qed
  have c1: "\<forall>p. resolve s1 R p \<noteq> None \<longleftrightarrow> p \<in> P"
    using D(1) by (simp add: res)
  have c2: "\<forall>p q n. resolve s1 R p = Some n \<longrightarrow> resolve s1 R q = Some n \<longrightarrow> p = q"
    using D(2) by (auto simp: res)
  have "tinv str s1 R P U H"
    unfolding tinv_def using c1 c2 c3 c4 c5 c6 c7 by blast
  with res show ?thesis by simp
qed

subsection \<open>The walk, the theft and one mount\<close>

lemma prefs_Cons:
  "{pre @ t | t. prefix t (a # l)} = insert pre {(pre @ [a]) @ t | t. prefix t l}"
  by (auto simp: prefix_Cons)

lemma walk_Cons_new:
  "seg \<notin> set (listNames s cur) \<Longrightarrow>
   walk str (seg # segs) cur s =
     walk str segs (next_node s) (graft str cur seg (next_node s) (snd (new_Resource s)))"
  by (simp add: Let_def new_Resource_def graft_def)

lemma walk_tinv:
  assumes K: "key_inj str"
  shows "tinv str s R P U H \<Longrightarrow> resolve s R pre = Some cur \<Longrightarrow>
     (\<And>t. t \<noteq> [] \<Longrightarrow> prefix t segs \<Longrightarrow> pre @ t \<notin> U) \<Longrightarrow>
     \<exists>last s'. walk str segs cur s = Inr (last, s') \<and>
        tinv str s' R (P \<union> {pre @ t | t. prefix t segs}) U H \<and>
        resolve s' R (pre @ segs) = Some last \<and>
        (\<forall>p\<in>P. resolve s' R p = resolve s R p)"
proof (induction segs arbitrary: s cur pre P)
  case Nil
  from tinvD(1) [OF Nil(1), of pre] Nil(2) have "pre \<in> P" by simp
  then have "P \<union> {pre @ t | t. prefix t []} = P" by auto
  with Nil show ?case by simp
next
  case (Cons seg segs)
  note I = Cons.prems(1) and cur = Cons.prems(2) and good = Cons.prems(3)
  note D = tinvD [OF I]
  have preP: "pre \<in> P" using D(1) [of pre] cur by simp
  have good': "pre @ [seg] @ t \<notin> U" if "t \<noteq> []" "prefix t segs" for t
    using good [of "seg # t"] that by simp
  have good1: "pre @ [seg] \<notin> U"
    using good [of "[seg]"] by simp
  show ?case
  proof (cases "seg \<in> set (listNames s cur)")
    case False
    let ?d = "next_node s"
    let ?s1 = "snd (new_Resource s)"
    let ?s3 = "graft str cur seg ?d ?s1"
    have un: "\<And>p. resolve s R p \<noteq> Some ?d"
      using D(3) by fastforce
    have dH: "?d \<notin> H" using D(6) by fastforce
    have I1: "tinv str ?s1 R P U H \<and> (\<forall>p. resolve ?s1 R p = resolve s R p)"
      by (rule tinv_children_upd [OF I un dH]) (simp_all add: new_Resource_def)
    then have res1: "\<And>p. resolve ?s1 R p = resolve s R p" by simp
    have dcur: "cur \<noteq> ?d" using cur un by auto
    have chd: "\<And>a. ch ?s1 ?d a = None" by (simp add: new_Resource_def)
    have chcur: "ch ?s1 cur seg = None"
      using False dcur by (simp add: new_Resource_def ch_None_iff [symmetric])
    have I3: "tinv str ?s3 R (insert (pre @ [seg]) P)
        (U \<union> {pre @ [seg, a] | a. ch ?s1 ?d a \<noteq> None}) H"
    proof (rule graft_tinv [OF K conjunct1 [OF I1]])
      show "resolve ?s1 R pre = Some cur" using cur res1 by simp
      show "\<And>p. resolve ?s1 R p \<noteq> Some ?d" using un res1 by simp
      show "?d < next_node ?s1" by (simp add: new_Resource_def)
      show "\<And>a. resource_mappings ?s1 (resource_id str ?d a) = None"
        using D(8) by (simp add: new_Resource_def)
      show "?d \<notin> H" by (rule dH)
      show "\<And>a. ch ?s1 ?d a = (case ch ?s1 cur seg of None \<Rightarrow> None | Some E \<Rightarrow> ch ?s1 E a)"
        using chd chcur by simp
    qed
    then have I3': "tinv str ?s3 R (insert (pre @ [seg]) P) U H"
      using chd by simp
    have res3: "resolve ?s3 R p = (if p = pre @ [seg] then Some ?d else resolve s R p)" for p
    proof -
      have "resolve ?s3 R p = (if p = pre @ [seg] then Some ?d else resolve ?s1 R p)"
      proof (rule graft_resolve)
        show "\<And>p q n. resolve ?s1 R p = Some n \<Longrightarrow> resolve ?s1 R q = Some n \<Longrightarrow> p = q"
          using D(2) res1 by auto
        show "resolve ?s1 R pre = Some cur" using cur res1 by simp
        show "\<And>p. resolve ?s1 R p \<noteq> Some ?d" using un res1 by simp
        show "\<And>a. ch ?s1 ?d a = (case ch ?s1 cur seg of None \<Rightarrow> None | Some E \<Rightarrow> ch ?s1 E a)"
          using chd chcur by simp
      qed
      then show ?thesis by (simp add: res1)
    qed
    have notP: "pre @ [seg] \<notin> P"
    proof -
      have "ch s cur seg = None" using False by (simp add: ch_None_iff)
      then have "resolve s R (pre @ [seg]) = None"
        using cur by (simp add: resolve_snoc)
      then show ?thesis using D(1) [of "pre @ [seg]"] by simp
    qed
    from Cons.IH [OF I3', of "pre @ [seg]" ?d] res3 [of "pre @ [seg]"] good'
    obtain last s' where w: "walk str segs ?d ?s3 = Inr (last, s')"
      and I': "tinv str s' R (insert (pre @ [seg]) P \<union> {(pre @ [seg]) @ t | t. prefix t segs}) U H"
      and l: "resolve s' R ((pre @ [seg]) @ segs) = Some last"
      and fr: "\<forall>p\<in>insert (pre @ [seg]) P. resolve s' R p = resolve ?s3 R p"
      by auto
    have eq: "insert (pre @ [seg]) P \<union> {(pre @ [seg]) @ t | t. prefix t segs} =
        P \<union> {pre @ t | t. prefix t (seg # segs)}"
      using preP by (auto simp: prefs_Cons)
    have fr': "\<forall>p\<in>P. resolve s' R p = resolve s R p"
      using fr res3 notP by auto
    have step: "walk str (seg # segs) cur s = walk str segs ?d ?s3"
      by (rule walk_Cons_new [OF False])
    from I' eq have I'': "tinv str s' R (P \<union> {pre @ t | t. prefix t (seg # segs)}) U H"
      by simp
    from l have l': "resolve s' R (pre @ seg # segs) = Some last" by simp
    show ?thesis
      unfolding step using w I'' l' fr' by blast
  next
    case True
    then obtain c where c: "ch s cur seg = Some c"
      using ch_None_iff [of s cur seg] by auto
    have "resource_mappings s (resource_id str cur seg) \<noteq> None"
      using D(10) [OF cur c] good1 by auto
    then obtain c' where m: "resource_mappings s (resource_id str cur seg) = Some c'"
      by auto
    from D(9) [OF cur m] c have "c' = c" by simp
    have r: "resolve s R (pre @ [seg]) = Some c"
      using cur c by (simp add: resolve_snoc)
    then have inP: "pre @ [seg] \<in> P" using D(1) [of "pre @ [seg]"] by simp
    from Cons.IH [OF I r] good'
    obtain last s' where w: "walk str segs c s = Inr (last, s')"
      and I': "tinv str s' R (P \<union> {(pre @ [seg]) @ t | t. prefix t segs}) U H"
      and l: "resolve s' R ((pre @ [seg]) @ segs) = Some last"
      and fr: "\<forall>p\<in>P. resolve s' R p = resolve s R p"
      by auto
    have eq: "P \<union> {(pre @ [seg]) @ t | t. prefix t segs} =
        P \<union> {pre @ t | t. prefix t (seg # segs)}"
      using preP inP by (auto simp: prefs_Cons)
    have step: "walk str (seg # segs) cur s = walk str segs c s"
      using True m \<open>c' = c\<close> by simp
    from I' eq have I'': "tinv str s' R (P \<union> {pre @ t | t. prefix t (seg # segs)}) U H"
      by simp
    from l have l': "resolve s' R (pre @ seg # segs) = Some last" by simp
    show ?thesis
      unfolding step using w I'' l' fr by blast
  qed
qed

lemma steal_children_ok:
  assumes "E \<noteq> h"
  shows "(\<And>a. a \<in> set names \<Longrightarrow>
            \<exists>c. resource_mappings s (resource_id str E a) = Some c \<and> ch s E a = Some c) \<Longrightarrow>
     \<exists>s2. steal_children str E h names s = Inr s2 \<and> next_node s2 = next_node s \<and>
        resource_mappings s2 = resource_mappings s \<and>
        (\<forall>n. n \<noteq> h \<longrightarrow> children s2 n = children s n) \<and>
        (\<forall>a. ch s2 h a = (if a \<in> set names then ch s E a else ch s h a))"
proof (induction names arbitrary: s)
  case Nil
  then show ?case by simp
next
  case (Cons a names)
  from Cons.prems [of a] obtain c
    where m: "resource_mappings s (resource_id str E a) = Some c" and c: "ch s E a = Some c"
    by auto
  let ?s' = "putChild h a c s"
  have E: "children ?s' E = children s E"
    using assms by (simp add: putChild_def)
  have "\<And>b. b \<in> set names \<Longrightarrow>
      \<exists>c. resource_mappings ?s' (resource_id str E b) = Some c \<and> ch ?s' E b = Some c"
    using Cons.prems E by (simp add: putChild_def)
  from Cons.IH [OF this] obtain s2
    where s2: "steal_children str E h names ?s' = Inr s2" "next_node s2 = next_node ?s'"
      "resource_mappings s2 = resource_mappings ?s'"
      "\<forall>n. n \<noteq> h \<longrightarrow> children s2 n = children ?s' n"
      "\<forall>b. ch s2 h b = (if b \<in> set names then ch ?s' E b else ch ?s' h b)"
    by blast
  have h: "ch ?s' h b = (if b = a then Some c else ch s h b)" for b
    by (simp add: putChild_def update_conv')
  have "steal_children str E h (a # names) s = Inr s2"
    using m s2(1) by simp
  moreover have "next_node s2 = next_node s" "resource_mappings s2 = resource_mappings s"
    using s2(2,3) by (simp_all add: putChild_def)
  moreover have "\<forall>n. n \<noteq> h \<longrightarrow> children s2 n = children s n"
    using s2(4) by (simp add: putChild_def)
  moreover have "\<forall>b. ch s2 h b = (if b \<in> set (a # names) then ch s E b else ch s h b)"
    using s2(5) E h c by auto
  ultimately show ?case by blast
qed

lemma tree_paths_insert:
  "tree_paths D \<union> {t. prefix t pre} \<union> {pre @ [seg]} = tree_paths (insert (pre @ [seg]) D)"
  by (auto simp: tree_paths_def prefix_snoc)

lemma attach_tinv:
  assumes K: "key_inj str"
    and I: "tinv str s R (tree_paths D) U H"
    and M: "\<And>q' h'. (q', h') \<in> M \<Longrightarrow> resolve s R q' = Some h'"
    and MD: "fst ` M = D"
    and T9: "\<And>u. u \<in> U \<Longrightarrow> \<exists>q'\<in>D. \<exists>a. u = q' @ [a]"
    and hH: "h \<in> H"
    and qD: "path_segs f \<notin> D"
    and good: "\<And>u. u \<in> U \<Longrightarrow> \<not> prefix u (path_segs f)"
  shows "\<exists>s'. attach str R (f, h) s = Inr s' \<and>
        tinv str s' R (tree_paths (insert (path_segs f) D))
          (U \<union> {path_segs f @ [a] | a. \<exists>p\<in>D. prefix (path_segs f @ [a]) p}) (H - {h}) \<and>
        (\<forall>(q', h') \<in> insert (path_segs f, h) M. resolve s' R q' = Some h')"
proof -
  define pre where "pre = interior_segs f"
  define seg where "seg = last_path_seg f"
  define q where "q = pre @ [seg]"
  have qf: "path_segs f = q"
    by (simp add: path_segs_def q_def pre_def seg_def)
  let ?U' = "U \<union> {q @ [a] | a. \<exists>p\<in>D. prefix (q @ [a]) p}"
  have "resolve s R [] = Some R" by simp
  from walk_tinv [OF K I this, of pre] good
  obtain last s1 where w: "walk str pre R s = Inr (last, s1)"
    and I1: "tinv str s1 R (tree_paths D \<union> {[] @ t | t. prefix t pre}) U H"
    and l: "resolve s1 R pre = Some last"
    and fr: "\<forall>p\<in>tree_paths D. resolve s1 R p = resolve s R p"
    unfolding qf q_def by (auto simp: prefix_snoc)
  let ?P1 = "tree_paths D \<union> {[] @ t | t. prefix t pre}"
  note D1 = tinvD [OF I1]
  have P1: "insert q ?P1 = tree_paths (insert q D)"
    using tree_paths_insert [of D pre seg] unfolding q_def by auto
  have hun: "\<And>p. resolve s1 R p \<noteq> Some h"
    using D1(4) hH by blast
  have hlt: "h < next_node s1" using D1(6) [OF hH] .
  have hrm: "\<And>a. resource_mappings s1 (resource_id str h a) = None"
    using D1(7) [OF hH] .
  have hch: "\<And>a. ch s1 h a = None" using D1(5) [OF hH] by simp
  have lh: "last \<noteq> h" using l hun by auto
  have I1': "tinv str s1 R ?P1 U (H - {h})"
    by (rule tinv_mono [OF I1]) auto
  have Mres: "resolve s1 R q' = Some h'" if "(q', h') \<in> M" for q' h'
  proof -
    from that MD have "q' \<in> D" by force
    then have "q' \<in> tree_paths D" by (auto simp: tree_paths_def)
    with fr M [OF that] show ?thesis by simp
  qed
  have Mq: "q' \<noteq> q" if "(q', h') \<in> M" for q' h'
    using that MD qD qf by force
  show ?thesis
  proof (cases "resource_mappings s1 (resource_id str last seg)")
    case None
    have chN: "ch s1 last seg = None"
    proof (rule ccontr)
      assume "ch s1 last seg \<noteq> None"
      then obtain c where "ch s1 last seg = Some c" by auto
      from D1(10) [OF l this None] have "q \<in> U" by (simp add: q_def)
      with good [of q] show False by (simp add: qf)
    qed
    let ?s' = "graft str last seg h s1"
    have att: "attach str R (f, h) s = Inr ?s'"
      using w None by (simp add: attach_def Let_def graft_def pre_def seg_def)
    have xch: "\<And>a. ch s1 h a = (case ch s1 last seg of None \<Rightarrow> None | Some E \<Rightarrow> ch s1 E a)"
      using hch chN by simp
    have "tinv str ?s' R (insert (pre @ [seg]) ?P1)
        (U \<union> {pre @ [seg, a] | a. ch s1 h a \<noteq> None}) (H - {h})"
      by (rule graft_tinv [OF K I1' l hun hlt hrm _ xch]) simp
    then have "tinv str ?s' R (tree_paths (insert q D)) U (H - {h})"
      using P1 hch by (simp add: q_def)
    then have I': "tinv str ?s' R (tree_paths (insert q D)) ?U' (H - {h})"
      by (rule tinv_mono) auto
    have res: "resolve ?s' R p = (if p = pre @ [seg] then Some h else resolve s1 R p)" for p
      by (rule graft_resolve [OF D1(2) l hun xch])
    have "\<forall>(q', h') \<in> insert (q, h) M. resolve ?s' R q' = Some h'"
      using Mres Mq by (auto simp: res q_def)
    with att I' show ?thesis unfolding qf by blast
  next
    case (Some E)
    have chE: "ch s1 last seg = Some E" by (rule D1(9) [OF l Some])
    have rq: "resolve s1 R q = Some E"
      using l chE by (simp add: q_def resolve_snoc)
    have Eh: "E \<noteq> h" using rq hun by auto
    have names: "\<exists>c. resource_mappings s1 (resource_id str E a) = Some c \<and> ch s1 E a = Some c"
      if "a \<in> set (listNames s1 E)" for a
    proof -
      from that obtain c where c: "ch s1 E a = Some c"
        using ch_None_iff [of s1 E a] by auto
      have "resource_mappings s1 (resource_id str E a) \<noteq> None"
      proof
        assume "resource_mappings s1 (resource_id str E a) = None"
        from D1(10) [OF rq c this] have "q @ [a] \<in> U" .
        from T9 [OF this] have "q \<in> D" by auto
        with qD qf show False by simp
      qed
      then obtain c' where m: "resource_mappings s1 (resource_id str E a) = Some c'" by auto
      from D1(9) [OF rq m] c m show ?thesis by simp
    qed
    from steal_children_ok [OF Eh names, of "listNames s1 E"] obtain s2
      where st: "steal_children str E h (listNames s1 E) s1 = Inr s2"
        and nx: "next_node s2 = next_node s1"
        and rm2: "resource_mappings s2 = resource_mappings s1"
        and oth: "\<forall>n. n \<noteq> h \<longrightarrow> children s2 n = children s1 n"
        and ch2: "\<forall>a. ch s2 h a = (if a \<in> set (listNames s1 E) then ch s1 E a else ch s1 h a)"
      by blast
    have ch2': "ch s2 h a = ch s1 E a" for a
      using ch2 hch ch_None_iff [of s1 E a] by auto
    have I2: "tinv str s2 R ?P1 U (H - {h}) \<and> (\<forall>p. resolve s2 R p = resolve s1 R p)"
      by (rule tinv_children_upd [OF I1' hun]) (use nx rm2 oth in auto)
    then have res2: "\<And>p. resolve s2 R p = resolve s1 R p" by simp
    note D2 = tinvD [OF conjunct1 [OF I2]]
    let ?s' = "graft str last seg h s2"
    have att: "attach str R (f, h) s = Inr ?s'"
      using w Some st by (simp add: attach_def Let_def graft_def pre_def seg_def)
    have xch: "\<And>a. ch s2 h a = (case ch s2 last seg of None \<Rightarrow> None | Some E \<Rightarrow> ch s2 E a)"
      using ch2' chE oth lh Eh by simp
    have l2: "resolve s2 R pre = Some last" using l res2 by simp
    have hun2: "\<And>p. resolve s2 R p \<noteq> Some h" using hun res2 by simp
    have "tinv str ?s' R (insert (pre @ [seg]) ?P1)
        (U \<union> {pre @ [seg, a] | a. ch s2 h a \<noteq> None}) (H - {h})"
      by (rule graft_tinv [OF K conjunct1 [OF I2] l2 hun2 _ _ _ xch])
        (use hlt nx hrm rm2 in auto)
    then have J: "tinv str ?s' R (tree_paths (insert q D))
        (U \<union> {pre @ [seg, a] | a. ch s2 h a \<noteq> None}) (H - {h})"
      using P1 by (simp add: q_def)
    have sub: "{pre @ [seg, a] | a. ch s2 h a \<noteq> None} \<subseteq> {q @ [a] | a. \<exists>p\<in>D. prefix (q @ [a]) p}"
    proof
      fix u assume "u \<in> {pre @ [seg, a] | a. ch s2 h a \<noteq> None}"
      then obtain a where u: "u = q @ [a]" and "ch s1 E a \<noteq> None"
        by (auto simp: ch2' q_def)
      then have "resolve s1 R (q @ [a]) \<noteq> None"
        using rq by (simp add: resolve_snoc)
      then have "q @ [a] \<in> ?P1" using D1(1) by simp
      moreover have "\<not> prefix (q @ [a]) pre"
      proof
        assume "prefix (q @ [a]) pre"
        then have "length (q @ [a]) \<le> length pre" by (rule prefix_length_le)
        then show False by (simp add: q_def)
      qed
      ultimately have "\<exists>p\<in>D. prefix (q @ [a]) p"
        by (auto simp: tree_paths_def)
      with u show "u \<in> {q @ [a] | a. \<exists>p\<in>D. prefix (q @ [a]) p}" by blast
    qed
    have I': "tinv str ?s' R (tree_paths (insert q D)) ?U' (H - {h})"
    proof (rule tinv_mono [OF J])
      show "H - {h} \<subseteq> H - {h}" by simp
      show "U \<union> {pre @ [seg, a] | a. ch s2 h a \<noteq> None} \<subseteq> ?U'"
        using sub by blast
    qed
    have res: "resolve ?s' R p = (if p = pre @ [seg] then Some h else resolve s2 R p)" for p
      by (rule graft_resolve [OF D2(2) l2 hun2 xch])
    have "\<forall>(q', h') \<in> insert (q, h) M. resolve ?s' R q' = Some h'"
      using Mres Mq by (auto simp: res res2 q_def)
    with att I' show ?thesis unfolding qf by blast
  qed
qed

subsection \<open>All the mounts\<close>

lemma mount_paths_simps [simp]:
  "mount_paths [] = []"
  "mount_paths ((f, h) # ms) = path_segs f # mount_paths ms"
  by (simp_all add: mount_paths_def)

lemma set_stolen_children:
  "set (stolen_children dl q) = {q @ [a] | a. \<exists>p\<in>set dl. prefix (q @ [a]) p}"
proof (intro set_eqI iffI)
  fix u assume "u \<in> set (stolen_children dl q)"
  then obtain p where p: "p \<in> set dl" "strict_prefix q p" and u: "u = take (Suc (length q)) p"
    by (auto simp: stolen_children_def)
  from p(2) obtain a r where pr: "p = q @ a # r"
    by (metis strict_prefixE' append.assoc append_Cons append_Nil)
  with u have "u = q @ [a]" by simp
  moreover have "prefix (q @ [a]) p" using pr by simp
  ultimately show "u \<in> {q @ [a] | a. \<exists>p\<in>set dl. prefix (q @ [a]) p}"
    using p(1) by blast
next
  fix u assume "u \<in> {q @ [a] | a. \<exists>p\<in>set dl. prefix (q @ [a]) p}"
  then obtain a p where u: "u = q @ [a]" and p: "p \<in> set dl" "prefix (q @ [a]) p"
    by blast
  from p(2) obtain r where pr: "p = q @ a # r"
    by (auto simp: prefix_def)
  then have "strict_prefix q p" "take (Suc (length q)) p = q @ [a]"
    by (auto simp: strict_prefix_def)
  with u p(1) show "u \<in> set (stolen_children dl q)"
    by (auto simp: stolen_children_def intro!: image_eqI [where x = p])
qed

text \<open>
  The safety of a mount list in closed form: there are no three mounts, in the order of
  the list, such that the path of the second, continued by one segment, is a prefix of the
  paths of both the first and the third.
\<close>

lemma all_less_Suc_split: "(\<forall>k<Suc n. P k) \<longleftrightarrow> P 0 \<and> (\<forall>k<n. P (Suc k))"
  by (auto simp: less_Suc_eq_0_disj)

lemma steal_safe_from_iff:
  "steal_safe_from Ul dl todo \<longleftrightarrow>
     (\<forall>k<length todo.
        \<forall>u\<in>set Ul \<union> (\<Union>j<k. set (stolen_children (dl @ take j todo) (todo ! j))).
          \<not> prefix u (todo ! k))"
proof (induction todo arbitrary: Ul dl)
  case Nil
  show ?case by simp
next
  case (Cons q todo)
  have "steal_safe_from Ul dl (q # todo) \<longleftrightarrow>
      (\<forall>u\<in>set Ul. \<not> prefix u q) \<and>
      (\<forall>k<length todo.
        \<forall>u\<in>set (Ul @ stolen_children dl q) \<union>
            (\<Union>j<k. set (stolen_children ((dl @ [q]) @ take j todo) (todo ! j))).
          \<not> prefix u (todo ! k))"
    by (simp add: list_all_iff Cons.IH)
  also have "\<dots> \<longleftrightarrow>
      (\<forall>k<Suc (length todo).
        \<forall>u\<in>set Ul \<union> (\<Union>j<k. set (stolen_children (dl @ take j (q # todo)) ((q # todo) ! j))).
          \<not> prefix u ((q # todo) ! k))"
    unfolding all_less_Suc_split [of "length todo"]
    by (simp add: lessThan_Suc_eq_insert_0 image_image Un_assoc ball_Un)
  finally show ?case by simp
qed

lemma steal_safe_iff:
  "steal_safe ps \<longleftrightarrow>
     (\<forall>i j k a. i < j \<and> j < k \<and> k < length ps \<longrightarrow>
        \<not> (prefix (ps ! j @ [a]) (ps ! i) \<and> prefix (ps ! j @ [a]) (ps ! k)))"
proof
  assume s: "steal_safe ps"
  show "\<forall>i j k a. i < j \<and> j < k \<and> k < length ps \<longrightarrow>
        \<not> (prefix (ps ! j @ [a]) (ps ! i) \<and> prefix (ps ! j @ [a]) (ps ! k))"
  proof (intro allI impI notI)
    fix i j k a
    assume o: "i < j \<and> j < k \<and> k < length ps"
      and p: "prefix (ps ! j @ [a]) (ps ! i) \<and> prefix (ps ! j @ [a]) (ps ! k)"
    from o have "ps ! i \<in> set (take j ps)"
      by (auto simp: in_set_conv_nth intro!: exI [of _ i])
    with p have "ps ! j @ [a] \<in> set (stolen_children ([] @ take j ps) (ps ! j))"
      by (auto simp: set_stolen_children)
    with s o have "\<not> prefix (ps ! j @ [a]) (ps ! k)"
      unfolding steal_safe_def steal_safe_from_iff by blast
    with p show False by simp
  qed
next
  assume r: "\<forall>i j k a. i < j \<and> j < k \<and> k < length ps \<longrightarrow>
        \<not> (prefix (ps ! j @ [a]) (ps ! i) \<and> prefix (ps ! j @ [a]) (ps ! k))"
  show "steal_safe ps"
    unfolding steal_safe_def steal_safe_from_iff
  proof (intro allI impI ballI)
    fix k u
    assume k: "k < length ps"
      and u: "u \<in> set [] \<union> (\<Union>j<k. set (stolen_children ([] @ take j ps) (ps ! j)))"
    then obtain j a p where j: "j < k" and ua: "u = ps ! j @ [a]"
      and p: "p \<in> set (take j ps)" "prefix (ps ! j @ [a]) p"
      by (auto simp: set_stolen_children)
    from p(1) j k obtain i where "i < j" "p = ps ! i"
      by (auto simp: in_set_conv_nth)
    with r j k p(2) ua show "\<not> prefix u (ps ! k)" by blast
  qed
qed

lemma attach_all_tinv:
  assumes K: "key_inj str"
  shows "tinv str s R (tree_paths (set dl)) (set Ul) H \<Longrightarrow>
     (\<And>q' h'. (q', h') \<in> M \<Longrightarrow> resolve s R q' = Some h') \<Longrightarrow>
     fst ` M = set dl \<Longrightarrow>
     (\<And>u. u \<in> set Ul \<Longrightarrow> \<exists>q'\<in>set dl. \<exists>a. u = q' @ [a]) \<Longrightarrow>
     distinct (map snd ms) \<Longrightarrow> snd ` set ms \<subseteq> H \<Longrightarrow>
     distinct (mount_paths ms) \<Longrightarrow>
     set (mount_paths ms) \<inter> set dl = {} \<Longrightarrow>
     steal_safe_from Ul dl (mount_paths ms) \<Longrightarrow>
     \<exists>s'. attach_all str R ms s = Inr s' \<and>
        (\<forall>p. resolve s' R p \<noteq> None \<longleftrightarrow>
              p \<in> tree_paths (set dl \<union> set (mount_paths ms))) \<and>
        (\<forall>(q', h') \<in> M \<union> (\<lambda>(f, h). (path_segs f, h)) ` set ms. resolve s' R q' = Some h')"
proof (induction ms arbitrary: s dl Ul H M)
  case Nil
  from tinvD(1) [OF Nil(1)] Nil(2) show ?case by auto
next
  case (Cons m ms)
  obtain f h where m: "m = (f, h)" by (cases m)
  let ?q = "path_segs f"
  have hH: "h \<in> H" using Cons.prems(6) m by simp
  have qD: "?q \<notin> set dl" using Cons.prems(8) m by auto
  have good: "\<And>u. u \<in> set Ul \<Longrightarrow> \<not> prefix u ?q"
    using Cons.prems(9) m by (simp add: list_all_iff)
  from attach_tinv [OF K Cons.prems(1) Cons.prems(2) Cons.prems(3) Cons.prems(4) hH qD good]
  obtain s1 where a: "attach str R (f, h) s = Inr s1"
    and I1: "tinv str s1 R (tree_paths (insert ?q (set dl)))
          (set Ul \<union> {?q @ [a] | a. \<exists>p\<in>set dl. prefix (?q @ [a]) p}) (H - {h})"
    and M1: "\<forall>(q', h') \<in> insert (?q, h) M. resolve s1 R q' = Some h'"
    by blast
  have I1': "tinv str s1 R (tree_paths (set (dl @ [?q]))) (set (Ul @ stolen_children dl ?q)) (H - {h})"
    using I1 by (simp add: set_stolen_children)
  have p2: "\<And>q' h'. (q', h') \<in> insert (?q, h) M \<Longrightarrow> resolve s1 R q' = Some h'"
    using M1 by blast
  have p3: "fst ` insert (?q, h) M = set (dl @ [?q])"
    using Cons.prems(3) by auto
  have p4: "\<exists>q'\<in>set (dl @ [?q]). \<exists>a. u = q' @ [a]" if "u \<in> set (Ul @ stolen_children dl ?q)" for u
    using that Cons.prems(4) [of u] by (auto simp: set_stolen_children)
  have p5: "distinct (map snd ms)" using Cons.prems(5) by simp
  have p6: "snd ` set ms \<subseteq> H - {h}" using Cons.prems(5,6) m by auto
  have p7: "distinct (mount_paths ms)" using Cons.prems(7) m by simp
  have p8: "set (mount_paths ms) \<inter> set (dl @ [?q]) = {}"
    using Cons.prems(7,8) m by auto
  have p9: "steal_safe_from (Ul @ stolen_children dl ?q) (dl @ [?q]) (mount_paths ms)"
    using Cons.prems(9) m by simp
  from Cons.IH [OF I1' p2 p3 p4 p5 p6 p7 p8 p9]
  obtain s' where a': "attach_all str R ms s1 = Inr s'"
    and d: "\<forall>p. resolve s' R p \<noteq> None \<longleftrightarrow>
              p \<in> tree_paths (set (dl @ [?q]) \<union> set (mount_paths ms))"
    and hs: "\<forall>(q', h') \<in> insert (?q, h) M \<union> (\<lambda>(f, h). (path_segs f, h)) ` set ms.
              resolve s' R q' = Some h'"
    by blast
  have e1: "set (dl @ [?q]) \<union> set (mount_paths ms) =
      set dl \<union> set (mount_paths (m # ms))"
    using m by auto
  have e2: "insert (?q, h) M \<union> (\<lambda>(f, h). (path_segs f, h)) ` set ms =
      M \<union> (\<lambda>(f, h). (path_segs f, h)) ` set (m # ms)"
    using m by auto
  have "attach_all str R (m # ms) s = Inr s'"
    using a a' m by simp
  with d hs show ?case unfolding e1 e2 by blast
qed

text \<open>
  For a safe mount list with pairwise different paths and pairwise different resources
  without children, \<^verbatim>\<open>create_resource_tree\<close> completes; the paths that resolve from the root
  are the prefixes of the mounts' paths, and each mount's path resolves to its resource.
\<close>

lemma build_tree_ok:
  assumes K: "key_inj str"
    and hs: "\<And>h. h \<in> snd ` set ms \<Longrightarrow> h < next_node s \<and> children s h = []"
    and dh: "distinct (map snd ms)"
    and dp: "distinct (mount_paths ms)"
    and safe: "steal_safe (mount_paths ms)"
  shows "\<exists>s'. build_tree str ms s = Inr (next_node s, s') \<and>
        (\<forall>p. resolve s' (next_node s) p \<noteq> None \<longleftrightarrow>
              p \<in> tree_paths (set (mount_paths ms))) \<and>
        (\<forall>(f, h) \<in> set ms. resolve s' (next_node s) (path_segs f) = Some h)"
proof -
  let ?R = "next_node s"
  let ?H = "snd ` set ms"
  define s0 where "s0 = (snd (new_Resource s))\<lparr>resource_mappings := Map.empty\<rparr>"
  have s0: "children s0 n = (if n = ?R then [] else children s n)"
    "next_node s0 = Suc ?R" "resource_mappings s0 k = None" for n k
    by (simp_all add: s0_def new_Resource_def)
  have res0: "resolve s0 ?R p = (if p = [] then Some ?R else None)" for p
    by (cases p) (simp_all add: s0)
  have c3: "\<forall>p n. resolve s0 ?R p = Some n \<longrightarrow> n < next_node s0 \<and> n \<notin> ?H"
  proof (intro allI impI)
    fix p n assume "resolve s0 ?R p = Some n"
    then have n: "n = ?R" by (simp add: res0 split: if_splits)
    have "?R \<notin> ?H" using hs [of ?R] by auto
    with n show "n < next_node s0 \<and> n \<notin> ?H" by (simp add: s0(2))
  qed
  have c4: "\<forall>h\<in>?H. children s0 h = [] \<and> h < next_node s0 \<and>
        (\<forall>a. resource_mappings s0 (resource_id str h a) = None)"
  proof
    fix h assume "h \<in> ?H"
    from hs [OF this] show "children s0 h = [] \<and> h < next_node s0 \<and>
        (\<forall>a. resource_mappings s0 (resource_id str h a) = None)"
      by (simp add: s0)
  qed
  have c7: "\<forall>p n a. resolve s0 ?R p = Some n \<longrightarrow> ch s0 n a \<noteq> None \<longrightarrow>
        resource_mappings s0 (resource_id str n a) = None \<longrightarrow> p @ [a] \<in> set []"
    by (auto simp: res0 s0(1) split: if_splits)
  have I0: "tinv str s0 ?R (tree_paths (set [])) (set []) ?H"
    unfolding tinv_def using c3 c4 c7
    by (simp add: res0 s0(3) tree_paths_def)
  from attach_all_tinv [OF K I0, of "{}" ms] dh dp safe
  obtain s' where a: "attach_all str ?R ms s0 = Inr s'"
    and d: "\<forall>p. resolve s' ?R p \<noteq> None \<longleftrightarrow>
              p \<in> tree_paths (set [] \<union> set (mount_paths ms))"
    and h: "\<forall>(q', h') \<in> {} \<union> (\<lambda>(f, h). (path_segs f, h)) ` set ms. resolve s' ?R q' = Some h'"
    by (auto simp: steal_safe_def)
  have "build_tree str ms s = Inr (?R, s')"
    using a by (simp add: build_tree_def new_Resource_def s0_def)
  moreover have "\<forall>(f, h) \<in> set ms. resolve s' ?R (path_segs f) = Some h"
    using h by auto
  ultimately show ?thesis using d by auto
qed

lemma key_inj_node_str: "key_inj node_str"
  by (simp add: key_inj_def node_str_key_inj)

text \<open>
  The mount list of the server itself, with the prefixes of \<^verbatim>\<open>synapse.api.urls\<close> and the web
  client enabled, is safe: the web client at \<^verbatim>\<open>/matrix/client\<close> is mounted last, after the
  client API below it. The four prefixes resolve to the four resources.
\<close>

lemma shipped_mounts_safe:
  "steal_safe (mount_paths [(CLIENT_PREFIX matrix_urls, 0), (FEDERATION_PREFIX matrix_urls, 1),
     (CONTENT_REPO_PREFIX matrix_urls, 2), (WEB_CLIENT_PREFIX matrix_urls, 3)])"
  by code_simp

lemma shipped_tree_resolves:
  "(case create_resource_tree node_str matrix_urls four_resources True True (fresh_state 4) of
      Inl e \<Rightarrow> None
    | Inr (r, s) \<Rightarrow> Some (map (\<lambda>p. resolve s r (path_segs p))
        [''/matrix/client/api/v1'', ''/matrix/federation/v1'', ''/matrix/content'',
         ''/matrix/client'']))
   = Some [Some 0, Some 1, Some 2, Some 3]"
  by code_simp

text \<open>
  On safe mount lists the order of the mounts does not matter. Take two mount lists that
  are permutations of each other, with pairwise different paths and pairwise different
  resources that have no children, a rendering that gives different keys to different pairs
  of a resource and a segment, and let both lists be safe. Then \<^verbatim>\<open>create_resource_tree\<close>
  completes on both, each mount's path resolves to the mount's resource in both trees, the
  same paths resolve in both, and at every path the two resources have the same names of
  children.
\<close>

theorem build_tree_order_independent:
  assumes K: "key_inj str"
    and hs: "\<forall>h \<in> snd ` set ms. h < next_node s \<and> children s h = []"
    and dh: "distinct (map snd ms)"
    and dp: "distinct (mount_paths ms)"
    and perm: "mset ms' = mset ms"
    and safe: "steal_safe (mount_paths ms)"
    and safe': "steal_safe (mount_paths ms')"
  shows "\<exists>r t t'. build_tree str ms s = Inr (r, t) \<and> build_tree str ms' s = Inr (r, t') \<and>
      (\<forall>(f, h) \<in> set ms. resolve t r (path_segs f) = Some h \<and>
                           resolve t' r (path_segs f) = Some h) \<and>
      (\<forall>p. resolve t r p = None \<longleftrightarrow> resolve t' r p = None) \<and>
      (\<forall>p n n'. resolve t r p = Some n \<longrightarrow> resolve t' r p = Some n' \<longrightarrow>
         set (listNames t n) = set (listNames t' n'))"
proof -
  let ?r = "next_node s"
  have se: "set ms' = set ms" using perm by (rule mset_eq_setD)
  have "mset (map snd ms') = mset (map snd ms)"
    using perm by (metis mset_map)
  then have dh': "distinct (map snd ms')"
    using dh by (metis mset_eq_imp_distinct_iff)
  have "mset (mount_paths ms') = mset (mount_paths ms)"
    unfolding mount_paths_def using perm by (metis mset_map)
  then have dp': "distinct (mount_paths ms')"
    using dp by (metis mset_eq_imp_distinct_iff)
  have pe: "set (mount_paths ms') = set (mount_paths ms)"
    by (simp add: mount_paths_def se)
  from build_tree_ok [OF K _ dh dp safe, of s] hs
  obtain t where b: "build_tree str ms s = Inr (?r, t)"
    and d: "\<forall>p. resolve t ?r p \<noteq> None \<longleftrightarrow> p \<in> tree_paths (set (mount_paths ms))"
    and h: "\<forall>(f, h) \<in> set ms. resolve t ?r (path_segs f) = Some h"
    by blast
  from build_tree_ok [OF K _ dh' dp' safe', of s] hs se
  obtain t' where b': "build_tree str ms' s = Inr (?r, t')"
    and d': "\<forall>p. resolve t' ?r p \<noteq> None \<longleftrightarrow> p \<in> tree_paths (set (mount_paths ms'))"
    and h': "\<forall>(f, h) \<in> set ms'. resolve t' ?r (path_segs f) = Some h"
    by blast
  have same: "resolve t ?r p = None \<longleftrightarrow> resolve t' ?r p = None" for p
    using d d' pe by (metis)
  have names: "set (listNames t n) = set (listNames t' n')"
    if "resolve t ?r p = Some n" "resolve t' ?r p = Some n'" for p n n'
    using child_names_resolve [OF that(1)] child_names_resolve [OF that(2)] same by auto
  have "\<forall>(f, h) \<in> set ms. resolve t ?r (path_segs f) = Some h \<and>
          resolve t' ?r (path_segs f) = Some h"
    using h h' se by auto
  with b b' same names show ?thesis by blast
qed

theorem build_tree_order_independent_witness:
  "\<exists>r t t'.
     build_tree node_str [(''/a/b'', 0), (''/a'', 1), (''/c'', 2)] (fresh_state 3) = Inr (r, t) \<and>
     build_tree node_str [(''/a'', 1), (''/c'', 2), (''/a/b'', 0)] (fresh_state 3) = Inr (r, t') \<and>
     resolve t r [''a'', ''b''] = Some 0 \<and> resolve t' r [''a'', ''b''] = Some 0 \<and>
     resolve t r [''a''] = Some 1 \<and> resolve t' r [''a''] = Some 1"
proof -
  let ?ms = "[(''/a/b'', 0::nat), (''/a'', 1), (''/c'', 2)]"
  let ?ms' = "[(''/a'', 1::nat), (''/c'', 2), (''/a/b'', 0)]"
  have p: "path_segs ''/a/b'' = [''a'', ''b'']" "path_segs ''/a'' = [''a'']"
    "path_segs ''/c'' = [''c'']"
    by code_simp+
  have 1: "\<forall>h \<in> snd ` set ?ms. h < next_node (fresh_state 3) \<and> children (fresh_state 3) h = []"
    by (simp add: fresh_state_def)
  have 2: "distinct (map snd ?ms)" by simp
  have 3: "distinct (mount_paths ?ms)" by (simp add: p)
  have 4: "mset ?ms' = mset ?ms" by simp
  have 5: "steal_safe (mount_paths ?ms)"
    by (simp add: p steal_safe_def stolen_children_def)
  have 6: "steal_safe (mount_paths ?ms')"
    by (simp add: p steal_safe_def stolen_children_def)
  from build_tree_order_independent [OF key_inj_node_str 1 2 3 4 5 6]
  show ?thesis by (simp add: p) blast
qed

text \<open>
  C3 fails on mounts with pairwise different paths: the lists \<^verbatim>\<open>/a/b/c\<close>, \<^verbatim>\<open>/a/b\<close>, \<^verbatim>\<open>/a\<close>
  and \<^verbatim>\<open>/a/b/c\<close>, \<^verbatim>\<open>/a\<close>, \<^verbatim>\<open>/a/b\<close> are permutations of each other, of the same three
  resources without children. On the first, every replacement finds the entries of the
  children it steals, and the three paths resolve to the three resources. On the second, the
  resource at \<^verbatim>\<open>/a\<close> takes over the child \<^verbatim>\<open>b\<close> without an entry in \<^verbatim>\<open>resource_mappings\<close>, the
  mount of \<^verbatim>\<open>/a/b\<close> steals nothing, and \<^verbatim>\<open>/a/b/c\<close> resolves to nothing.
\<close>

theorem build_tree_order_dependent:
  "(case build_tree node_str [(''/a/b/c'', 0), (''/a/b'', 1), (''/a'', 2)] (fresh_state 3) of
      Inl e \<Rightarrow> None
    | Inr (r, s) \<Rightarrow> Some (map (\<lambda>p. resolve s r (path_segs p)) [''/a/b/c'', ''/a/b'', ''/a'']))
   = Some [Some 0, Some 1, Some 2]
   \<and> (case build_tree node_str [(''/a/b/c'', 0), (''/a'', 2), (''/a/b'', 1)] (fresh_state 3) of
      Inl e \<Rightarrow> None
    | Inr (r, s) \<Rightarrow> Some (map (\<lambda>p. resolve s r (path_segs p)) [''/a/b/c'', ''/a/b'', ''/a'']))
   = Some [None, Some 1, Some 2]
   \<and> mset [(''/a/b/c'', 0::nat), (''/a'', 2), (''/a/b'', 1)] =
     mset [(''/a/b/c'', 0), (''/a/b'', 1), (''/a'', 2)]"
  apply (intro conjI)
    apply code_simp
   apply code_simp
  apply simp
  done

text \<open>
  Two mounts of the same path: the later mount wins, so the two orders give trees in which
  \<^verbatim>\<open>/a\<close> resolves to different resources.
\<close>

theorem build_tree_same_path_order_counterexample:
  "(case build_tree node_str [(''/a'', 0), (''/a'', 1)] (fresh_state 2) of
      Inl e \<Rightarrow> None | Inr (r, s) \<Rightarrow> resolve s r (path_segs ''/a'')) = Some 1
   \<and> (case build_tree node_str [(''/a'', 1), (''/a'', 0)] (fresh_state 2) of
      Inl e \<Rightarrow> None | Inr (r, s) \<Rightarrow> resolve s r (path_segs ''/a'')) = Some 0
   \<and> mset [(''/a'', 1::nat), (''/a'', 0)] = mset [(''/a'', 0), (''/a'', 1)]"
  apply (intro conjI)
    apply code_simp
   apply code_simp
  apply simp
  done

end
